theory Spec2Isabelle
  imports Main
begin

section \<open>Data model\<close>

text \<open>
  The class \<open>Maze\<close> of \<open>src/make_kdp_maze_book.py\<close> (and, without the seed, of
  \<open>generate_kids_mazes.py\<close>): a cell is a pair of Python integers, the maze is a dataclass
  with \<open>width\<close>, \<open>height\<close> and the dictionary \<open>cells\<close>, which maps a cell to a dictionary
  from the strings \<open>"N"\<close>, \<open>"S"\<close>, \<open>"E"\<close>, \<open>"W"\<close> to booleans (True: the wall is there).
\<close>

type_synonym cell = "int \<times> int"

type_synonym walls = "string \<rightharpoonup> bool"

record maze =
  width :: int
  height :: int
  cells :: "cell \<rightharpoonup> walls"

text \<open>The exceptions the code can raise: a missing dictionary key, and
  \<open>random.choice\<close> on an empty sequence.\<close>

datatype error = KeyError | IndexError

text \<open>The stack operations of the generation loop, recorded in the order they happen.
  The record is not a variable of the source: it is kept beside the stack so that the
  number of pushes and pops can be stated.\<close>

datatype stack_op = Push cell | Pop cell

text \<open>The state of the loop of \<open>_generate\<close>: the object \<open>self\<close>, the local variables
  \<open>stack\<close> (top at the end of the list, as in Python) and \<open>visited\<close>, and the state of the
  module-level generator of \<open>random\<close>.\<close>

record 'g gen_state =
  self :: maze
  stack :: "cell list"
  visited :: "cell set"
  rng :: 'g
  ops :: "stack_op list"

section \<open>Generation\<close>

text \<open>\<open>range(n)\<close> for a Python integer \<open>n\<close>: empty when \<open>n \<le> 0\<close>.\<close>

definition py_range :: "int \<Rightarrow> int list" where
  "py_range n = [0..n - 1]"

definition all_walls :: walls where
  "all_walls = [''N'' \<mapsto> True, ''S'' \<mapsto> True, ''E'' \<mapsto> True, ''W'' \<mapsto> True]"

text \<open>The two nested loops of \<open>create\<close> that fill \<open>cells\<close>.\<close>

definition init_cells :: "int \<Rightarrow> int \<Rightarrow> (cell \<rightharpoonup> walls)" where
  "init_cells w h =
     fold (\<lambda>x cs. fold (\<lambda>y cs'. cs'((x, y) \<mapsto> all_walls)) (py_range h) cs)
       (py_range w) Map.empty"

text \<open>\<open>random.choice(seq)\<close>: the library function is not part of the repository. It
  returns \<open>seq[k]\<close> for an index \<open>0 \<le> k < len(seq)\<close> that the generator's state determines,
  and advances that state; the parameter \<open>rb\<close> stands for the library's index draw and
  \<open>mod\<close> keeps its result in range. On an empty sequence it raises IndexError.\<close>

definition choice :: "('g \<Rightarrow> nat \<Rightarrow> nat \<times> 'g) \<Rightarrow> 'a list \<Rightarrow> 'g \<Rightarrow> error + ('a \<times> 'g)" where
  "choice rb xs g =
     (if xs = [] then Inl IndexError
      else (case rb g (length xs) of (k, g') \<Rightarrow> Inr (xs ! (k mod length xs), g')))"

definition cand :: "cell \<Rightarrow> (cell \<times> string \<times> string) list" where
  "cand c = (case c of (x, y) \<Rightarrow>
     [((x, y - 1), ''N'', ''S''), ((x, y + 1), ''S'', ''N''),
      ((x + 1, y), ''E'', ''W''), ((x - 1, y), ''W'', ''E'')])"

text \<open>The list \<open>neighbors\<close> built by the inner \<open>for\<close> loop of \<open>_generate\<close>.\<close>

definition unvisited_neighbors ::
  "maze \<Rightarrow> cell set \<Rightarrow> cell \<Rightarrow> (cell \<times> string \<times> string) list" where
  "unvisited_neighbors m vis c =
     filter (\<lambda>((nx, ny), dir_from_cur, dir_from_nb).
        0 \<le> nx \<and> nx < width m \<and> 0 \<le> ny \<and> ny < height m \<and> (nx, ny) \<notin> vis) (cand c)"

text \<open>One iteration of \<open>while stack:\<close> (the stack is not empty). The two assignments
  \<open>self.cells[c][d] = False\<close> look the cell up (KeyError when it has no entry) and then
  set the key \<open>d\<close> of the inner dictionary.\<close>

definition gen_step ::
  "('g \<Rightarrow> nat \<Rightarrow> nat \<times> 'g) \<Rightarrow> 'g gen_state \<Rightarrow> error + 'g gen_state" where
  "gen_step rb s =
     (let current = last (stack s);
          neighbors = unvisited_neighbors (self s) (visited s) current
      in if neighbors \<noteq> [] then
           (case choice rb neighbors (rng s) of
              Inl e \<Rightarrow> Inl e
            | Inr (((nx, ny), dcur, dnb), g') \<Rightarrow>
               (case cells (self s) current of
                  None \<Rightarrow> Inl KeyError
                | Some wc \<Rightarrow>
                   (let cells1 = (cells (self s))(current \<mapsto> wc(dcur \<mapsto> False)) in
                    (case cells1 (nx, ny) of
                       None \<Rightarrow> Inl KeyError
                     | Some wn \<Rightarrow>
                        Inr (s\<lparr>self := (self s)\<lparr>cells := cells1((nx, ny) \<mapsto> wn(dnb \<mapsto> False))\<rparr>,
                               visited := insert (nx, ny) (visited s),
                               stack := stack s @ [(nx, ny)],
                               rng := g',
                               ops := ops s @ [Push (nx, ny)]\<rparr>)))))
         else Inr (s\<lparr>stack := butlast (stack s), ops := ops s @ [Pop current]\<rparr>))"

text \<open>The cells of the rectangle \<open>[0, w) \<times> [0, h)\<close>.\<close>

definition grid :: "int \<Rightarrow> int \<Rightarrow> cell set" where
  "grid w h = {0..<w} \<times> {0..<h}"

definition gen_measure :: "'g gen_state \<Rightarrow> nat" where
  "gen_measure s =
     2 * card (grid (width (self s)) (height (self s)) - visited s) + length (stack s)"

text \<open>The loop \<open>while stack:\<close> of \<open>_generate\<close>.\<close>

function generate_loop ::
  "('g \<Rightarrow> nat \<Rightarrow> nat \<times> 'g) \<Rightarrow> 'g gen_state \<Rightarrow> error + 'g gen_state" where
  "generate_loop rb s =
     (if stack s = [] then Inr s
      else (case gen_step rb s of
              Inl e \<Rightarrow> Inl e
            | Inr s' \<Rightarrow> generate_loop rb s'))"
  by pat_completeness auto
termination
proof (relation "measure (\<lambda>(rb, s). gen_measure s)")
  fix rb :: "'g \<Rightarrow> nat \<Rightarrow> nat \<times> 'g" and s s' :: "'g gen_state"
  assume ne: "stack s \<noteq> []" and st: "gen_step rb s = Inr s'"
  let ?G = "grid (width (self s)) (height (self s))"
  let ?ns = "unvisited_neighbors (self s) (visited s) (last (stack s))"
  have "gen_measure s' < gen_measure s"
  proof (cases "?ns = []")
    case True
    with st have "s' = s\<lparr>stack := butlast (stack s), ops := ops s @ [Pop (last (stack s))]\<rparr>"
      by (simp add: gen_step_def)
    with ne show ?thesis
      by (simp add: gen_measure_def)
  next
    case False
    with st obtain n dc dn g' where
      ch: "choice rb ?ns (rng s) = Inr ((n, dc, dn), g')"
      and w: "width (self s') = width (self s)" "height (self s') = height (self s)"
      and v: "visited s' = insert n (visited s)"
      and sk: "stack s' = stack s @ [n]"
      by (auto simp: gen_step_def Let_def split: sum.splits option.splits prod.splits)
    have "x \<in> set xs" if "choice rb xs g = Inr (x, g')"
      for xs :: "(cell \<times> string \<times> string) list" and x g g'
      using that by (auto simp: choice_def split: if_splits prod.splits)
    from this[OF ch] have "(n, dc, dn) \<in> set ?ns" .
    then have n: "n \<in> ?G - visited s"
      by (auto simp: unvisited_neighbors_def grid_def)
    have "finite (?G - visited s)"
      by (simp add: grid_def)
    from this n have "card (?G - visited s - {n}) < card (?G - visited s)"
      by (rule card_Diff1_less)
    moreover have "?G - insert n (visited s) = ?G - visited s - {n}"
      by auto
    ultimately show ?thesis
      by (simp add: gen_measure_def w v sk)
  qed
  then show "((rb, s'), (rb, s)) \<in> measure (\<lambda>(rb, s). gen_measure s)"
    by simp
qed simp

declare generate_loop.simps [simp del]

text \<open>\<open>_generate\<close>: the loop started from the cell \<open>(0, 0)\<close>. The method returns nothing;
  the model returns the final state of the loop, which holds the mutated \<open>self\<close>. The
  initial \<open>stack = [start]\<close> is recorded as the push of the start.\<close>

definition generate ::
  "('g \<Rightarrow> nat \<Rightarrow> nat \<times> 'g) \<Rightarrow> maze \<Rightarrow> 'g \<Rightarrow> error + 'g gen_state" where
  "generate rb m g =
     generate_loop rb
       \<lparr>self = m, stack = [(0, 0)], visited = {(0, 0)}, rng = g, ops = [Push (0, 0)]\<rparr>"

text \<open>The object that \<open>create\<close> builds before it calls \<open>_generate\<close>: every wall is
  present. It also serves as a hand-made maze in which no cell reaches another.\<close>

definition walled :: "int \<Rightarrow> int \<Rightarrow> maze" where
  "walled w h = \<lparr>width = w, height = h, cells = init_cells w h\<rparr>"


text \<open>\<open>Maze.create(width, height, seed)\<close>. \<open>sd\<close> stands for \<open>random.seed\<close>, which
  replaces the state of the module-level generator by one computed from the seed;
  \<open>g0\<close> is that state when \<open>create\<close> is called. The result is the maze and the
  generator's state after the call.\<close>

definition create ::
  "('g \<Rightarrow> nat \<Rightarrow> nat \<times> 'g) \<Rightarrow> (int \<Rightarrow> 'g) \<Rightarrow> int \<Rightarrow> int \<Rightarrow> int option \<Rightarrow> 'g
     \<Rightarrow> error + (maze \<times> 'g)" where
  "create rb sd w h seed g0 =
     (let g = (case seed of Some sv \<Rightarrow> sd sv | None \<Rightarrow> g0);
          m = walled w h
      in (case generate rb m g of
            Inl e \<Rightarrow> Inl e
          | Inr s \<Rightarrow> Inr (self s, rng s)))"

text \<open>A sample index draw and a sample seeding function, to run the model on concrete
  inputs: the generator's state is a counter.\<close>

definition rb_demo :: "nat \<Rightarrow> nat \<Rightarrow> nat \<times> nat" where
  "rb_demo g n = (g, g + 1)"

definition sd_demo :: "int \<Rightarrow> nat" where
  "sd_demo sv = nat \<bar>sv\<bar>"

section \<open>Solving\<close>

text \<open>\<open>self.cells[cell][k]\<close>: a KeyError when the cell or the key is missing.\<close>

definition lookup_wall :: "maze \<Rightarrow> cell \<Rightarrow> string \<Rightarrow> error + bool" where
  "lookup_wall m c k =
     (case cells m c of
        None \<Rightarrow> Inl KeyError
      | Some wl \<Rightarrow> (case wl k of None \<Rightarrow> Inl KeyError | Some b \<Rightarrow> Inr b))"

text \<open>\<open>neighbors_open\<close>. Each of the four tests reads the wall first, then compares the
  coordinate. The methods of the solver are given with the object they leave behind:
  the second component of the result is \<open>self\<close> after the call.\<close>

definition neighbors_open :: "maze \<Rightarrow> cell \<Rightarrow> (error + cell list) \<times> maze" where
  "neighbors_open slf cell = (case cell of (x, y) \<Rightarrow>
     (case lookup_wall slf cell ''N'' of
        Inl e \<Rightarrow> (Inl e, slf)
      | Inr wn \<Rightarrow>
     (let res1 = (if \<not> wn \<and> y - 1 \<ge> 0 then [(x, y - 1)] else []) in
     (case lookup_wall slf cell ''S'' of
        Inl e \<Rightarrow> (Inl e, slf)
      | Inr ws \<Rightarrow>
     (let res2 = (if \<not> ws \<and> y + 1 < height slf then res1 @ [(x, y + 1)] else res1) in
     (case lookup_wall slf cell ''E'' of
        Inl e \<Rightarrow> (Inl e, slf)
      | Inr we \<Rightarrow>
     (let res3 = (if \<not> we \<and> x + 1 < width slf then res2 @ [(x + 1, y)] else res2) in
     (case lookup_wall slf cell ''W'' of
        Inl e \<Rightarrow> (Inl e, slf)
      | Inr ww \<Rightarrow>
     (let res4 = (if \<not> ww \<and> x - 1 \<ge> 0 then res3 @ [(x - 1, y)] else res3) in
      (Inr res4, slf))))))))))"

text \<open>\<open>came_from\<close>: a dictionary from cells to \<open>Optional[Cell]\<close>; the start maps to
  \<open>None\<close>.\<close>

type_synonym came_from = "cell \<rightharpoonup> cell option"

text \<open>The body of \<open>for nb in self.neighbors_open(cur)\<close>, on the pair of the queue and
  \<open>came_from\<close>.\<close>

definition visit_nb :: "cell \<Rightarrow> cell \<Rightarrow> cell list \<times> came_from \<Rightarrow> cell list \<times> came_from" where
  "visit_nb cur nb qc = (case qc of (queue, cf) \<Rightarrow>
     if cf nb = None then (queue @ [nb], cf(nb \<mapsto> Some cur)) else (queue, cf))"

text \<open>The loop \<open>while queue:\<close> of \<open>solve_bfs\<close>, with its \<open>break\<close>. The queue's left end is
  the head of the list. \<open>None\<close> stands for a loop that does not end.\<close>

partial_function (option) bfs_loop ::
  "cell \<Rightarrow> maze \<times> cell list \<times> came_from \<Rightarrow> ((error + came_from) \<times> maze) option" where
  "bfs_loop goal st = (case st of (slf, queue, cf) \<Rightarrow>
     (case queue of
        [] \<Rightarrow> Some (Inr cf, slf)
      | cur # rest \<Rightarrow>
          if cur = goal then Some (Inr cf, slf)
          else (case neighbors_open slf cur of
                  (Inl e, slf') \<Rightarrow> Some (Inl e, slf')
                | (Inr nbs, slf') \<Rightarrow>
                    (case fold (visit_nb cur) nbs (rest, cf) of
                       (queue', cf') \<Rightarrow> bfs_loop goal (slf', queue', cf')))))"

declare bfs_loop.simps [code]

text \<open>\<open>came_from.get(cur)\<close>: \<open>None\<close> for a missing key and for the start's entry.\<close>

definition cf_get :: "came_from \<Rightarrow> cell \<Rightarrow> cell option" where
  "cf_get cf c = (case cf c of None \<Rightarrow> None | Some v \<Rightarrow> v)"

text \<open>The loop \<open>while cur is not None:\<close> that collects the path from the goal backwards.\<close>

partial_function (option) walk_back ::
  "came_from \<Rightarrow> cell option \<Rightarrow> cell list \<Rightarrow> cell list option" where
  "walk_back cf cur path =
     (case cur of
        None \<Rightarrow> Some path
      | Some c \<Rightarrow> walk_back cf (cf_get cf c) (path @ [c]))"

declare walk_back.simps [code]

text \<open>\<open>solve_bfs(start, goal)\<close>; \<open>goal = None\<close> selects the corner opposite to the
  origin. The result is \<open>None\<close> when one of the two loops does not end.\<close>

definition solve_bfs ::
  "maze \<Rightarrow> cell \<Rightarrow> cell option \<Rightarrow> ((error + cell list) \<times> maze) option" where
  "solve_bfs slf start goal_arg =
     (let goal = (case goal_arg of None \<Rightarrow> (width slf - 1, height slf - 1) | Some gl \<Rightarrow> gl)
      in (case bfs_loop goal (slf, [start], [start \<mapsto> None]) of
            None \<Rightarrow> None
          | Some (Inl e, slf') \<Rightarrow> Some (Inl e, slf')
          | Some (Inr cf, slf') \<Rightarrow>
              (case walk_back cf (Some goal) [] of
                 None \<Rightarrow> None
               | Some path \<Rightarrow> Some (Inr (rev path), slf'))))"

section \<open>The open graph of a maze\<close>

text \<open>The key of the wall of \<open>a\<close> that faces \<open>b\<close>, when \<open>b\<close> is one unit away from \<open>a\<close>
  along one axis (\<open>y\<close> grows to the south, as in \<open>cand\<close>).\<close>

definition facing :: "cell \<Rightarrow> cell \<Rightarrow> string option" where
  "facing a b = (case a of (x, y) \<Rightarrow>
     if b = (x, y - 1) then Some ''N''
     else if b = (x, y + 1) then Some ''S''
     else if b = (x + 1, y) then Some ''E''
     else if b = (x - 1, y) then Some ''W''
     else None)"

text \<open>\<open>a\<close> and \<open>b\<close> are in bounds, one unit apart, and the wall of \<open>a\<close> facing \<open>b\<close> is
  absent.\<close>

definition open_step :: "maze \<Rightarrow> cell \<Rightarrow> cell \<Rightarrow> bool" where
  "open_step m a b \<longleftrightarrow>
     a \<in> grid (width m) (height m) \<and> b \<in> grid (width m) (height m) \<and>
     (case facing a b of
        None \<Rightarrow> False
      | Some d \<Rightarrow> (case cells m a of None \<Rightarrow> False | Some wl \<Rightarrow> wl d = Some False))"

text \<open>The open edges, as unordered pairs of cells.\<close>

definition open_edges :: "maze \<Rightarrow> cell set set" where
  "open_edges m = {{a, b} | a b. open_step m a b}"

text \<open>Paths in a graph given by its edge relation: a non-empty list of vertices from \<open>a\<close>
  to \<open>b\<close> in which each vertex is followed by one of its successors.\<close>

definition path_between :: "('a \<Rightarrow> 'a \<Rightarrow> bool) \<Rightarrow> 'a \<Rightarrow> 'a \<Rightarrow> 'a list \<Rightarrow> bool" where
  "path_between R a b p \<longleftrightarrow> p \<noteq> [] \<and> hd p = a \<and> last p = b \<and> successively R p"

definition simple_path :: "('a \<Rightarrow> 'a \<Rightarrow> bool) \<Rightarrow> 'a \<Rightarrow> 'a \<Rightarrow> 'a list \<Rightarrow> bool" where
  "simple_path R a b p \<longleftrightarrow> path_between R a b p \<and> distinct p"

text \<open>A cycle: at least three distinct vertices, each followed by a successor, the last
  one by the first.\<close>

definition cycle :: "('a \<Rightarrow> 'a \<Rightarrow> bool) \<Rightarrow> 'a list \<Rightarrow> bool" where
  "cycle R p \<longleftrightarrow> 3 \<le> length p \<and> distinct p \<and> successively R p \<and> R (last p) (hd p)"

definition wall_keys :: "string set" where
  "wall_keys = {''N'', ''S'', ''E'', ''W''}"

text \<open>Every cell of the rectangle has an entry with the four wall keys.\<close>

definition well_formed :: "maze \<Rightarrow> bool" where
  "well_formed m \<longleftrightarrow>
     (\<forall>c \<in> grid (width m) (height m).
        \<exists>wl. cells m c = Some wl \<and> wall_keys \<subseteq> dom wl)"

section \<open>Invariants\<close>

text \<open>The cells pushed and the cells popped, in order, read off the recorded stack
  operations.\<close>

fun pushed :: "stack_op list \<Rightarrow> cell list" where
  "pushed [] = []"
| "pushed (Push c # os) = c # pushed os"
| "pushed (Pop c # os) = pushed os"

fun popped :: "stack_op list \<Rightarrow> cell list" where
  "popped [] = []"
| "popped (Push c # os) = popped os"
| "popped (Pop c # os) = c # popped os"

text \<open>The invariant of the loop of \<open>_generate\<close>, in four parts: the shape of the state,
  the open graph on the visited cells, the cells that left the stack, and the recorded
  operations.\<close>

definition inv_shape :: "'g gen_state \<Rightarrow> bool" where
  "inv_shape s \<longleftrightarrow>
     (0, 0) \<in> visited s \<and>
     visited s \<subseteq> grid (width (self s)) (height (self s)) \<and>
     set (stack s) \<subseteq> visited s \<and> distinct (stack s) \<and>
     dom (cells (self s)) = grid (width (self s)) (height (self s)) \<and>
     (\<forall>c wl. cells (self s) c = Some wl \<longrightarrow> dom wl = wall_keys)"

definition inv_graph :: "'g gen_state \<Rightarrow> bool" where
  "inv_graph s \<longleftrightarrow>
     (\<forall>a b. open_step (self s) a b \<longrightarrow>
        a \<in> visited s \<and> b \<in> visited s \<and> open_step (self s) b a) \<and>
     (\<forall>a\<in>visited s. \<forall>b\<in>visited s. \<exists>!p. simple_path (open_step (self s)) a b p) \<and>
     card (open_edges (self s)) + 1 = card (visited s)"

definition inv_closed :: "'g gen_state \<Rightarrow> bool" where
  "inv_closed s \<longleftrightarrow>
     (\<forall>c\<in>visited s - set (stack s). \<forall>n\<in>grid (width (self s)) (height (self s)).
        facing c n \<noteq> None \<longrightarrow> n \<in> visited s)"

definition inv_ops :: "'g gen_state \<Rightarrow> bool" where
  "inv_ops s \<longleftrightarrow>
     distinct (pushed (ops s)) \<and> set (pushed (ops s)) = visited s \<and>
     distinct (popped (ops s)) \<and> set (popped (ops s)) = visited s - set (stack s)"

definition gen_inv :: "'g gen_state \<Rightarrow> bool" where
  "gen_inv s \<longleftrightarrow> inv_shape s \<and> inv_graph s \<and> inv_closed s \<and> inv_ops s"

text \<open>The maze after the two assignments that remove the wall between \<open>c\<close> and \<open>n\<close>.\<close>

definition carve :: "maze \<Rightarrow> cell \<Rightarrow> string \<Rightarrow> walls \<Rightarrow> cell \<Rightarrow> string \<Rightarrow> walls \<Rightarrow> maze" where
  "carve m c dc wc n dn wn =
     m\<lparr>cells := (cells m)(c \<mapsto> wc(dc \<mapsto> False), n \<mapsto> wn(dn \<mapsto> False))\<rparr>"

text \<open>What generation establishes about the maze it returns.\<close>

definition tree_maze :: "maze \<Rightarrow> bool" where
  "tree_maze m \<longleftrightarrow>
     dom (cells m) = grid (width m) (height m) \<and>
     (\<forall>c wl. cells m c = Some wl \<longrightarrow> dom wl = wall_keys) \<and>
     (\<forall>a b. open_step m a b \<longrightarrow> open_step m b a) \<and>
     (\<forall>a\<in>grid (width m) (height m). \<forall>b\<in>grid (width m) (height m).
        \<exists>!p. simple_path (open_step m) a b p) \<and>
     card (open_edges m) + 1 = card (grid (width m) (height m))"

text \<open>The cells met when following \<open>came_from\<close> from \<open>v\<close> down to the cell mapped to
  \<open>None\<close>.\<close>

inductive chain :: "came_from \<Rightarrow> cell \<Rightarrow> cell list \<Rightarrow> bool" for cf :: came_from where
  root: "cf v = Some None \<Longrightarrow> chain cf v [v]"
| link: "cf v = Some (Some u) \<Longrightarrow> chain cf u p \<Longrightarrow> chain cf v (v # p)"

text \<open>Every discovered cell has a chain that ends at the start, repeats no cell, follows
  open steps backwards and stays among the discovered cells.\<close>

definition chains_ok :: "(cell \<Rightarrow> cell \<Rightarrow> bool) \<Rightarrow> cell \<Rightarrow> came_from \<Rightarrow> bool" where
  "chains_ok R start cf \<longleftrightarrow>
     (\<forall>v\<in>dom cf. \<exists>p. chain cf v p \<and> last p = start \<and> distinct p \<and>
        successively (\<lambda>x y. R y x) p \<and> set p \<subseteq> dom cf)"

text \<open>The invariant of the loop of \<open>solve_bfs\<close>, and what holds of \<open>came_from\<close> when
  the loop ends: the goal was dequeued, or every open step from a discovered cell leads to
  a discovered cell.\<close>

definition bfs_inv :: "maze \<Rightarrow> cell \<Rightarrow> cell list \<Rightarrow> came_from \<Rightarrow> bool" where
  "bfs_inv m start q cf \<longleftrightarrow>
     set q \<subseteq> dom cf \<and> dom cf \<subseteq> grid (width m) (height m) \<and> start \<in> dom cf \<and>
     chains_ok (open_step m) start cf \<and>
     (\<forall>v\<in>dom cf - set q. \<forall>b. open_step m v b \<longrightarrow> b \<in> dom cf)"

definition bfs_post :: "maze \<Rightarrow> cell \<Rightarrow> cell \<Rightarrow> came_from \<Rightarrow> bool" where
  "bfs_post m start goal cf \<longleftrightarrow>
     dom cf \<subseteq> grid (width m) (height m) \<and> start \<in> dom cf \<and>
     chains_ok (open_step m) start cf \<and>
     (goal \<in> dom cf \<or> (\<forall>v\<in>dom cf. \<forall>b. open_step m v b \<longrightarrow> b \<in> dom cf))"

section \<open>Paths in graphs with unique simple paths\<close>


lemma path_between_set:
  assumes "path_between R a b p" and "a \<in> V" and "\<And>x y. x \<in> V \<Longrightarrow> R x y \<Longrightarrow> y \<in> V"
  shows "set p \<subseteq> V"
proof -
  have "successively R p \<Longrightarrow> p \<noteq> [] \<Longrightarrow> hd p \<in> V \<Longrightarrow> set p \<subseteq> V" for p
  proof (induction p)
    case Nil
    then show ?case by simp
  next
    case (Cons x xs)
    show ?case
    proof (cases xs)
      case Nil
      with Cons.prems show ?thesis by simp
    next
      case (Cons y ys)
      with Cons.prems have "R x y" "successively R xs" "x \<in> V"
        by simp_all
      with Cons Cons.IH assms(3)[of x y] have "set xs \<subseteq> V"
        by auto
      with Cons.prems show ?thesis by simp
    qed
  qed
  with assms show ?thesis
    by (auto simp: path_between_def)
qed

lemma simple_path_rev:
  assumes "simple_path R a b p" and "\<And>x y. R x y \<Longrightarrow> R y x"
  shows "simple_path R b a (rev p)"
proof -
  from assms(1) have "successively R p"
    by (simp add: simple_path_def path_between_def)
  then have "successively (\<lambda>x y. R y x) p"
    by (rule successively_mono) (use assms(2) in blast)
  with assms(1) show ?thesis
    by (simp add: simple_path_def path_between_def hd_rev last_rev)
qed

lemma simple_path_same:
  assumes "simple_path R a a p"
  shows "p = [a]"
proof (cases p)
  case Nil
  with assms show ?thesis by (simp add: simple_path_def path_between_def)
next
  case (Cons x xs)
  show ?thesis
  proof (cases "xs = []")
    case True
    with Cons assms show ?thesis by (simp add: simple_path_def path_between_def)
  next
    case False
    with Cons assms have "x = a" "last xs = a" "a \<notin> set xs"
      by (auto simp: simple_path_def path_between_def)
    with False last_in_set[of xs] show ?thesis
      by simp
  qed
qed

text \<open>Removing the loops of a path.\<close>

lemma path_between_shorten:
  "path_between R a b q \<Longrightarrow> \<exists>p. simple_path R a b p \<and> length p \<le> length q"
proof (induction q arbitrary: a)
  case Nil
  then show ?case by (simp add: path_between_def)
next
  case (Cons x xs)
  then have xa: "x = a" by (simp add: path_between_def)
  show ?case
  proof (cases "xs = []")
    case True
    with Cons.prems have "simple_path R a b [a]"
      by (auto simp: simple_path_def path_between_def)
    then show ?thesis by (intro exI[of _ "[a]"]) simp
  next
    case False
    with Cons.prems xa have "path_between R (hd xs) b xs" and r: "R a (hd xs)"
      by (auto simp: path_between_def successively_Cons)
    from Cons.IH[OF this(1)] obtain p where
      p: "simple_path R (hd xs) b p" "length p \<le> length xs"
      by blast
    show ?thesis
    proof (cases "a \<in> set p")
      case False
      with p r have "simple_path R a b (a # p)"
        by (auto simp: simple_path_def path_between_def successively_Cons)
      with p(2) show ?thesis
        by (intro exI[of _ "a # p"]) simp
    next
      case True
      then obtain us vs where uv: "p = us @ a # vs"
        by (meson split_list)
      with p(1) have "simple_path R a b (a # vs)"
        by (auto simp: simple_path_def path_between_def successively_append_iff)
      with p(2) uv show ?thesis
        by (intro exI[of _ "a # vs"]) simp
    qed
  qed
qed

text \<open>Attaching a new vertex \<open>n\<close> to a vertex \<open>c\<close> of a graph with unique simple paths.\<close>

lemma leaf_successively:
  assumes "successively R' p" and "n \<notin> set p"
    and "\<And>x y. R' x y \<Longrightarrow> R x y \<or> x = n \<or> y = n"
  shows "successively R p"
  using assms(1)
  by (rule successively_mono) (use assms(2,3) in blast)

lemma leaf_not_inside:
  assumes sp: "simple_path R' a b p" and "a \<noteq> n" and "b \<noteq> n"
    and nb: "\<And>x. R' x n \<Longrightarrow> x = c" "\<And>x. R' n x \<Longrightarrow> x = c"
  shows "n \<notin> set p"
proof
  assume "n \<in> set p"
  then obtain xs ys where p: "p = xs @ n # ys"
    by (meson split_list)
  with sp assms(2,3) have ne: "xs \<noteq> []" "ys \<noteq> []"
    by (auto simp: simple_path_def path_between_def)
  with sp p have "R' (last xs) n" "R' n (hd ys)"
    by (auto simp: simple_path_def path_between_def successively_append_iff successively_Cons)
  with nb have "last xs = c" "hd ys = c"
    by blast+
  with ne have "c \<in> set xs" "c \<in> set ys"
    by (metis last_in_set, metis hd_in_set)
  with sp p show False
    by (auto simp: simple_path_def)
qed

lemma leaf_path_to_new:
  assumes sp: "simple_path R' a n p" and "a \<noteq> n"
    and nb: "\<And>x. R' x n \<Longrightarrow> x = c"
    and old: "\<And>x y. R' x y \<Longrightarrow> R x y \<or> x = n \<or> y = n"
  shows "\<exists>q. p = q @ [n] \<and> simple_path R a c q"
proof -
  from sp have "p \<noteq> []" "last p = n"
    by (simp_all add: simple_path_def path_between_def)
  then have p: "p = butlast p @ [n]"
    by (metis append_butlast_last_id)
  define q where "q = butlast p"
  with p have pq: "p = q @ [n]" by simp
  with sp assms(2) have ne: "q \<noteq> []"
    by (auto simp: simple_path_def path_between_def)
  with sp pq have "R' (last q) n" "successively R' q" "n \<notin> set q" "distinct q" "hd q = a"
    by (auto simp: simple_path_def path_between_def successively_append_iff)
  with nb old ne have "simple_path R a c q"
    by (auto simp: simple_path_def path_between_def intro: leaf_successively)
  with pq show ?thesis by blast
qed

lemma leaf_unique_paths:
  assumes tree: "\<forall>a\<in>V. \<forall>b\<in>V. \<exists>!p. simple_path R a b p"
    and inV: "\<And>x y. R x y \<Longrightarrow> x \<in> V \<and> y \<in> V"
    and sym: "\<And>x y. R x y \<Longrightarrow> R y x"
    and c: "c \<in> V" and n: "n \<notin> V"
    and R': "\<And>x y. R' x y \<longleftrightarrow> R x y \<or> (x = c \<and> y = n) \<or> (x = n \<and> y = c)"
  shows "\<forall>a\<in>insert n V. \<forall>b\<in>insert n V. \<exists>!p. simple_path R' a b p"
proof -
  have nb: "R' x n \<Longrightarrow> x = c" "R' n x \<Longrightarrow> x = c" for x
    using R' inV n by blast+
  have old: "R' x y \<Longrightarrow> R x y \<or> x = n \<or> y = n" for x y
    using R' by blast
  have sym': "R' x y \<Longrightarrow> R' y x" for x y
    using R' sym by blast
  have up: "simple_path R a b p \<Longrightarrow> simple_path R' a b p" for a b p
    unfolding simple_path_def path_between_def
    by (auto intro: successively_mono simp: R')
  have down: "simple_path R' a b p \<Longrightarrow> n \<notin> set p \<Longrightarrow> simple_path R a b p" for a b p
    unfolding simple_path_def path_between_def
    using leaf_successively[of R' p n R] old by blast
  have vv: "\<exists>!p. simple_path R' a b p" if "a \<in> V" "b \<in> V" for a b
  proof -
    from tree that obtain p where p: "simple_path R a b p" "\<And>q. simple_path R a b q \<Longrightarrow> q = p"
      by blast
    have "q = p" if "simple_path R' a b q" for q
    proof -
      from \<open>a \<in> V\<close> \<open>b \<in> V\<close> n have "a \<noteq> n" "b \<noteq> n" by blast+
      with leaf_not_inside[OF that, of n c] nb have "n \<notin> set q"
        by blast
      with that down p(2) show ?thesis by blast
    qed
    with up[OF p(1)] show ?thesis by blast
  qed
  have vn: "\<exists>!p. simple_path R' a n p" if "a \<in> V" for a
  proof -
    from tree that c obtain p where p: "simple_path R a c p" "\<And>q. simple_path R a c q \<Longrightarrow> q = p"
      by blast
    from p(1) that inV have "set p \<subseteq> V"
      by (intro path_between_set[of R a c p V]) (auto simp: simple_path_def)
    with n have "n \<notin> set p" by blast
    with up[OF p(1)] have "simple_path R' a n (p @ [n])"
      by (auto simp: simple_path_def path_between_def successively_append_iff R')
    moreover have "q = p @ [n]" if "simple_path R' a n q" for q
    proof -
      from \<open>a \<in> V\<close> n have "a \<noteq> n" by blast
      from leaf_path_to_new[OF that this, of c R] nb old p(2) show ?thesis
        by blast
    qed
    ultimately show ?thesis by blast
  qed
  have nv: "\<exists>!p. simple_path R' n b p" if "b \<in> V" for b
  proof -
    from vn[OF that] obtain p where p: "simple_path R' b n p" "\<And>q. simple_path R' b n q \<Longrightarrow> q = p"
      by blast
    have "simple_path R' n b (rev p)"
      using simple_path_rev[OF p(1)] sym' by blast
    moreover have "q = rev p" if "simple_path R' n b q" for q
    proof -
      have "simple_path R' b n (rev q)"
        using simple_path_rev[OF that] sym' by blast
      with p(2) have "rev q = p" by blast
      then show ?thesis by (metis rev_rev_ident)
    qed
    ultimately show ?thesis by blast
  qed
  have nn: "\<exists>!p. simple_path R' n n p"
  proof -
    have "simple_path R' n n [n]"
      by (simp add: simple_path_def path_between_def)
    then show ?thesis
      by (rule ex1I) (rule simple_path_same)
  qed
  show ?thesis
  proof (intro ballI)
    fix a b
    assume "a \<in> insert n V" "b \<in> insert n V"
    then consider "a \<in> V" "b \<in> V" | "a \<in> V" "b = n" | "a = n" "b \<in> V" | "a = n" "b = n"
      by blast
    then show "\<exists>!p. simple_path R' a b p"
    proof cases
      case 1
      then show ?thesis by (rule vv)
    next
      case 2
      with vn show ?thesis by simp
    next
      case 3
      with nv show ?thesis by simp
    next
      case 4
      with nn show ?thesis by simp
    qed
  qed
qed

lemma unique_paths_no_cycle:
  assumes tree: "\<forall>a\<in>V. \<forall>b\<in>V. \<exists>!p. simple_path R a b p"
    and inV: "\<And>x y. R x y \<Longrightarrow> x \<in> V \<and> y \<in> V"
    and sym: "\<And>x y. R x y \<Longrightarrow> R y x"
  shows "\<not> cycle R p"
proof
  assume cy: "cycle R p"
  then have len: "3 \<le> length p" and d: "distinct p" and s: "successively R p"
    and cl: "R (last p) (hd p)"
    by (simp_all add: cycle_def)
  from len have ne: "p \<noteq> []" by auto
  from cl inV have hV: "hd p \<in> V" "last p \<in> V" by blast+
  from ne d s have p1: "simple_path R (hd p) (last p) p"
    by (simp add: simple_path_def path_between_def)
  have "hd p \<noteq> last p"
  proof (cases p)
    case Nil
    with ne show ?thesis by simp
  next
    case (Cons x xs)
    with len have "xs \<noteq> []" by auto
    then have "last xs \<in> set xs" by simp
    with Cons d \<open>xs \<noteq> []\<close> show ?thesis by auto
  qed
  with sym[OF cl] have p2: "simple_path R (hd p) (last p) [hd p, last p]"
    by (simp add: simple_path_def path_between_def)
  from tree hV p1 p2 have "p = [hd p, last p]" by blast
  then have "length p = length [hd p, last p]"
    by simp
  with len show False by simp
qed

section \<open>Generation: the initial grid\<close>

lemma finite_grid [simp]: "finite (grid w h)"
  by (simp add: grid_def)

lemma set_py_range [simp]: "set (py_range n) = {0..<n}"
  by (auto simp: py_range_def)

lemma fold_row:
  "fold (\<lambda>y cs'. cs'((x, y) \<mapsto> v)) ys cs c =
     (if fst c = x \<and> snd c \<in> set ys then Some v else cs c)"
  by (induction ys arbitrary: cs) (auto simp: prod_eq_iff)

lemma fold_rows:
  "fold (\<lambda>x cs. fold (\<lambda>y cs'. cs'((x, y) \<mapsto> v)) ys cs) xs cs0 c =
     (if fst c \<in> set xs \<and> snd c \<in> set ys then Some v else cs0 c)"
  by (induction xs arbitrary: cs0) (auto simp: fold_row)

lemma init_cells_apply:
  "init_cells w h c = (if c \<in> grid w h then Some all_walls else None)"
  by (cases c) (simp add: init_cells_def fold_rows grid_def)

lemma grid_empty: "w \<le> 0 \<or> h \<le> 0 \<Longrightarrow> grid w h = {}"
  by (auto simp: grid_def)

lemma init_cells_empty: "w \<le> 0 \<or> h \<le> 0 \<Longrightarrow> init_cells w h = Map.empty"
  by (rule ext) (simp add: init_cells_apply grid_empty)

lemma unvisited_neighbors_empty:
  "width m \<le> 0 \<or> height m \<le> 0 \<Longrightarrow> unvisited_neighbors m vis c = []"
  by (cases c) (auto simp: unvisited_neighbors_def cand_def)

lemma generate_empty:
  assumes "width m \<le> 0 \<or> height m \<le> 0"
  shows "generate rb m g =
     Inr \<lparr>self = m, stack = [], visited = {(0, 0)}, rng = g,
          ops = [Push (0, 0), Pop (0, 0)]\<rparr>"
  using assms
  by (simp add: generate_def generate_loop.simps gen_step_def unvisited_neighbors_empty)

section \<open>Generation: the loop invariant\<close>

subsection \<open>Directions\<close>

lemma cand_iff:
  "(n, dc, dn) \<in> set (cand c) \<longleftrightarrow> facing c n = Some dc \<and> facing n c = Some dn"
  by (cases c; cases n) (auto simp: cand_def facing_def)

lemma facing_inj: "facing a b = Some d \<Longrightarrow> facing a b' = Some d \<Longrightarrow> b = b'"
  by (cases a) (auto simp: facing_def split: if_splits)

lemma facing_neq: "facing a b = Some d \<Longrightarrow> a \<noteq> b"
  by (cases a) (auto simp: facing_def split: if_splits)

lemma facing_keys: "facing a b = Some d \<Longrightarrow> d \<in> wall_keys"
  by (cases a) (auto simp: facing_def wall_keys_def split: if_splits)

lemma facing_back: "facing a b = Some d \<Longrightarrow> \<exists>d'. facing b a = Some d'"
  by (cases a; cases b) (auto simp: facing_def split: if_splits)

lemma facing_cand: "facing c n = Some d \<Longrightarrow> \<exists>dn. (n, d, dn) \<in> set (cand c)"
  using facing_back[of c n d] by (auto simp: cand_iff)

lemma unvisited_neighbors_iff:
  "(n, dc, dn) \<in> set (unvisited_neighbors m vis c) \<longleftrightarrow>
     (n, dc, dn) \<in> set (cand c) \<and> n \<in> grid (width m) (height m) \<and> n \<notin> vis"
  by (cases n) (auto simp: unvisited_neighbors_def grid_def)

subsection \<open>The stack operations\<close>

lemma pushed_append [simp]: "pushed (xs @ ys) = pushed xs @ pushed ys"
  by (induction xs rule: pushed.induct) simp_all

lemma popped_append [simp]: "popped (xs @ ys) = popped xs @ popped ys"
  by (induction xs rule: popped.induct) simp_all

subsection \<open>The invariant of the generation loop\<close>

lemma inv_shape_cell:
  assumes "inv_shape s" and "c \<in> grid (width (self s)) (height (self s))"
  obtains wl where "cells (self s) c = Some wl" and "dom wl = wall_keys"
proof -
  from assms have "c \<in> dom (cells (self s))"
    unfolding inv_shape_def by blast
  then obtain wl where wl: "cells (self s) c = Some wl" by blast
  with assms(1) have "dom wl = wall_keys"
    unfolding inv_shape_def by blast
  with wl that show thesis by blast
qed

lemma inv_shape_stack_grid:
  assumes "inv_shape s" and "c \<in> set (stack s)"
  shows "c \<in> visited s" and "c \<in> grid (width (self s)) (height (self s))"
  using assms unfolding inv_shape_def by blast+

lemma gen_step_pop:
  assumes "unvisited_neighbors (self s) (visited s) (last (stack s)) = []"
  shows "\<exists>s'. gen_step rb s = Inr s' \<and> self s' = self s \<and> visited s' = visited s \<and>
           stack s' = butlast (stack s) \<and> ops s' = ops s @ [Pop (last (stack s))]"
  using assms by (simp add: gen_step_def)

lemma gen_step_push:
  assumes sh: "inv_shape s" and ne: "stack s \<noteq> []"
    and nb: "unvisited_neighbors (self s) (visited s) (last (stack s)) \<noteq> []"
  shows "\<exists>s' n dc dn wc wn.
           gen_step rb s = Inr s' \<and>
           (n, dc, dn) \<in> set (unvisited_neighbors (self s) (visited s) (last (stack s))) \<and>
           cells (self s) (last (stack s)) = Some wc \<and> cells (self s) n = Some wn \<and>
           self s' = carve (self s) (last (stack s)) dc wc n dn wn \<and>
           visited s' = insert n (visited s) \<and> stack s' = stack s @ [n] \<and>
           ops s' = ops s @ [Push n]"
proof -
  let ?c = "last (stack s)"
  let ?ns = "unvisited_neighbors (self s) (visited s) ?c"
  obtain k g' where rb: "rb (rng s) (length ?ns) = (k, g')"
    by (cases "rb (rng s) (length ?ns)")
  obtain n dc dn where x: "?ns ! (k mod length ?ns) = (n, dc, dn)"
    by (cases "?ns ! (k mod length ?ns)")
  from nb have "k mod length ?ns < length ?ns" by simp
  then have mem: "(n, dc, dn) \<in> set ?ns"
    using x nth_mem by metis
  from nb rb x have ch: "choice rb ?ns (rng s) = Inr ((n, dc, dn), g')"
    by (simp add: choice_def)
  from ne have "?c \<in> set (stack s)" by simp
  with sh have "?c \<in> grid (width (self s)) (height (self s))"
    by (rule inv_shape_stack_grid)
  with sh obtain wc where wc: "cells (self s) ?c = Some wc"
    by (rule inv_shape_cell)
  from mem have nG: "n \<in> grid (width (self s)) (height (self s))" and cn: "(n, dc, dn) \<in> set (cand ?c)"
    by (simp_all add: unvisited_neighbors_iff)
  from sh nG obtain wn where wn: "cells (self s) n = Some wn"
    by (rule inv_shape_cell)
  from cn have neq: "n \<noteq> ?c"
    using facing_neq by (auto simp: cand_iff)
  obtain nx ny where nxy: "n = (nx, ny)" by (cases n)
  from nb ch wc wn neq nxy have
    "gen_step rb s = Inr (s\<lparr>self := carve (self s) ?c dc wc n dn wn,
        visited := insert n (visited s), stack := stack s @ [n], rng := g',
        ops := ops s @ [Push n]\<rparr>)"
    by (simp add: gen_step_def carve_def)
  with mem wc wn show ?thesis
    by (intro exI conjI) (assumption | simp)+
qed


subsection \<open>Removing a wall\<close>

lemma carve_dims [simp]:
  "width (carve m c dc wc n dn wn) = width m" "height (carve m c dc wc n dn wn) = height m"
  by (simp_all add: carve_def)

lemma carve_cells:
  "c \<noteq> n \<Longrightarrow> cells (carve m c dc wc n dn wn) a =
     (if a = c then Some (wc(dc \<mapsto> False))
      else if a = n then Some (wn(dn \<mapsto> False)) else cells m a)"
  by (simp add: carve_def)

lemma open_step_carve:
  assumes fc: "facing c n = Some dc" and fn: "facing n c = Some dn"
    and wc: "cells m c = Some wc" and wn: "cells m n = Some wn"
    and cG: "c \<in> grid (width m) (height m)" and nG: "n \<in> grid (width m) (height m)"
  shows "open_step (carve m c dc wc n dn wn) a b \<longleftrightarrow>
           open_step m a b \<or> (a = c \<and> b = n) \<or> (a = n \<and> b = c)"
proof -
  from fc have neq: "c \<noteq> n" by (rule facing_neq)
  show ?thesis
  proof (cases "facing a b")
    case None
    with fc fn show ?thesis by (auto simp: open_step_def)
  next
    case (Some d)
    consider "a = c" | "a = n" "a \<noteq> c" | "a \<noteq> c" "a \<noteq> n" by blast
    then show ?thesis
    proof cases
      case 1
      have "d = dc \<longleftrightarrow> b = n"
        using Some fc 1 facing_inj[of c b dc n] by fastforce
      with 1 Some neq wc cG nG show ?thesis
        by (auto simp: open_step_def carve_cells)
    next
      case 2
      have "d = dn \<longleftrightarrow> b = c"
        using Some fn 2 facing_inj[of n b dn c] by fastforce
      with 2 Some neq wn cG nG show ?thesis
        by (auto simp: open_step_def carve_cells)
    next
      case 3
      with Some neq show ?thesis
        by (auto simp: open_step_def carve_cells)
    qed
  qed
qed

lemma finite_open_edges: "finite (open_edges m)"
proof -
  have "open_edges m \<subseteq> (\<lambda>(a, b). {a, b}) ` (grid (width m) (height m) \<times> grid (width m) (height m))"
    by (auto simp: open_edges_def open_step_def)
  then show ?thesis
    by (rule finite_subset) simp
qed

lemma open_edges_carve:
  assumes "\<And>a b. open_step m' a b \<longleftrightarrow> open_step m a b \<or> (a = c \<and> b = n) \<or> (a = n \<and> b = c)"
  shows "open_edges m' = insert {c, n} (open_edges m)"
proof
  show "open_edges m' \<subseteq> insert {c, n} (open_edges m)"
    using assms by (auto simp: open_edges_def)
next
  have "{c, n} \<in> open_edges m'"
    unfolding open_edges_def using assms by blast
  moreover have "open_edges m \<subseteq> open_edges m'"
    unfolding open_edges_def using assms by blast
  ultimately show "insert {c, n} (open_edges m) \<subseteq> open_edges m'"
    by simp
qed


subsection \<open>Each iteration keeps the invariant\<close>

lemma gen_inv_push:
  assumes inv: "gen_inv s" and ne: "stack s \<noteq> []"
    and mem: "(n, dc, dn) \<in> set (unvisited_neighbors (self s) (visited s) (last (stack s)))"
    and wc: "cells (self s) (last (stack s)) = Some wc" and wn: "cells (self s) n = Some wn"
    and self': "self s' = carve (self s) (last (stack s)) dc wc n dn wn"
    and vis': "visited s' = insert n (visited s)"
    and st': "stack s' = stack s @ [n]"
    and ops': "ops s' = ops s @ [Push n]"
  shows "gen_inv s'"
proof -
  let ?c = "last (stack s)"
  let ?G = "grid (width (self s)) (height (self s))"
  let ?V = "visited s"
  from inv have sh: "inv_shape s" and gr: "inv_graph s" and cl: "inv_closed s" and op: "inv_ops s"
    by (simp_all add: gen_inv_def)
  from ne have cst: "?c \<in> set (stack s)" by simp
  with sh have cV: "?c \<in> ?V" and cG: "?c \<in> ?G"
    by (rule inv_shape_stack_grid)+
  from mem have nG: "n \<in> ?G" and nV: "n \<notin> ?V" and cn: "(n, dc, dn) \<in> set (cand ?c)"
    by (simp_all add: unvisited_neighbors_iff)
  from cn have fc: "facing ?c n = Some dc" and fn: "facing n ?c = Some dn"
    by (simp_all add: cand_iff)
  from fc have neq: "?c \<noteq> n" by (rule facing_neq)
  have dims: "width (self s') = width (self s)" "height (self s') = height (self s)"
    by (simp_all add: self')
  have step: "open_step (self s') a b \<longleftrightarrow>
                open_step (self s) a b \<or> (a = ?c \<and> b = n) \<or> (a = n \<and> b = ?c)" for a b
    unfolding self' by (rule open_step_carve[OF fc fn wc wn cG nG])
  from sh have Vsub: "?V \<subseteq> ?G" and fin: "finite ?V"
    by (auto simp: inv_shape_def intro: finite_subset[OF _ finite_grid])
  have "inv_shape s'"
  proof -
    from sh wc have dwc: "dom wc = wall_keys"
      unfolding inv_shape_def by blast
    from sh wn have dwn: "dom wn = wall_keys"
      unfolding inv_shape_def by blast
    from facing_keys[OF fc] dwc have d1: "dom (wc(dc \<mapsto> False)) = wall_keys"
      by auto
    from facing_keys[OF fn] dwn have d2: "dom (wn(dn \<mapsto> False)) = wall_keys"
      by auto
    from sh have dm: "dom (cells (self s)) = ?G"
      by (simp add: inv_shape_def)
    have "dom (cells (self s')) = insert ?c (insert n (dom (cells (self s))))"
      by (auto simp: self' carve_def)
    with dm cG nG have a: "dom (cells (self s')) = ?G" by auto
    have b: "dom wl = wall_keys" if "cells (self s') c = Some wl" for c wl
    proof -
        from sh have keys: "cells (self s) c = Some wl \<Longrightarrow> dom wl = wall_keys"
        unfolding inv_shape_def by blast
      from that neq have "wl = wc(dc \<mapsto> False) \<or> wl = wn(dn \<mapsto> False) \<or> cells (self s) c = Some wl"
        by (auto simp: self' carve_cells split: if_splits)
      then show ?thesis
        using d1 d2 keys by (elim disjE) simp_all
    qed
    from sh nV have "distinct (stack s @ [n])" "(0, 0) \<in> insert n ?V"
      "set (stack s @ [n]) \<subseteq> insert n ?V"
      by (auto simp: inv_shape_def)
    with a b Vsub nG show ?thesis
      by (simp add: inv_shape_def dims vis' st')
  qed
  moreover have "inv_graph s'"
  proof -
    from gr have inV: "open_step (self s) x y \<Longrightarrow> x \<in> ?V \<and> y \<in> ?V" for x y
      unfolding inv_graph_def by blast
    from gr have sym: "open_step (self s) x y \<Longrightarrow> open_step (self s) y x" for x y
      unfolding inv_graph_def by blast
    from gr have tree: "\<forall>a\<in>?V. \<forall>b\<in>?V. \<exists>!p. simple_path (open_step (self s)) a b p"
      unfolding inv_graph_def by (elim conjE)
    have a: "\<forall>a b. open_step (self s') a b \<longrightarrow>
        a \<in> insert n ?V \<and> b \<in> insert n ?V \<and> open_step (self s') b a"
    proof (intro allI impI)
      fix a b
      assume "open_step (self s') a b"
      with step[of a b] consider "open_step (self s) a b" | "a = ?c" "b = n" | "a = n" "b = ?c"
        by blast
      then show "a \<in> insert n ?V \<and> b \<in> insert n ?V \<and> open_step (self s') b a"
      proof cases
        case 1
        with inV[of a b] sym[of a b] step[of b a] show ?thesis by simp
      next
        case 2
        with cV step[of b a] show ?thesis by simp
      next
        case 3
        with cV step[of b a] show ?thesis by simp
      qed
    qed
    have b: "\<forall>a\<in>insert n ?V. \<forall>b\<in>insert n ?V. \<exists>!p. simple_path (open_step (self s')) a b p"
      by (rule leaf_unique_paths[OF tree inV sym cV nV step])
    have e: "open_edges (self s') = insert {?c, n} (open_edges (self s))"
      by (rule open_edges_carve) (rule step)
    have "{?c, n} \<notin> open_edges (self s)"
    proof
      assume "{?c, n} \<in> open_edges (self s)"
      then obtain x y where "{?c, n} = {x, y}" "open_step (self s) x y"
        by (auto simp: open_edges_def)
      with inV[of x y] have "n \<in> ?V"
        by (auto simp: doubleton_eq_iff)
      with nV show False by simp
    qed
    with e have "card (open_edges (self s')) = Suc (card (open_edges (self s)))"
      by (simp add: finite_open_edges)
    moreover from gr have "card (open_edges (self s)) + 1 = card ?V"
      unfolding inv_graph_def by (elim conjE)
    moreover from fin nV have "card (insert n ?V) = Suc (card ?V)"
      by simp
    ultimately have c: "card (open_edges (self s')) + 1 = card (insert n ?V)"
      by simp
    from a b c show ?thesis
      unfolding inv_graph_def vis' by (intro conjI)
  qed
  moreover have "inv_closed s'"
  proof -
    from sh have "set (stack s) \<subseteq> ?V" by (simp add: inv_shape_def)
    with nV have "insert n ?V - set (stack s @ [n]) = ?V - set (stack s)"
      by auto
    with cl show ?thesis
      by (auto simp: inv_closed_def vis' st' dims)
  qed
  moreover have "inv_ops s'"
  proof -
    from sh have "set (stack s) \<subseteq> ?V" by (simp add: inv_shape_def)
    with nV have "insert n ?V - set (stack s @ [n]) = ?V - set (stack s)"
      by auto
    with op nV show ?thesis
      by (simp add: inv_ops_def vis' st' ops')
  qed
  ultimately show ?thesis
    by (simp add: gen_inv_def)
qed

lemma gen_inv_pop:
  assumes inv: "gen_inv s" and ne: "stack s \<noteq> []"
    and nb: "unvisited_neighbors (self s) (visited s) (last (stack s)) = []"
    and self': "self s' = self s"
    and vis': "visited s' = visited s"
    and st': "stack s' = butlast (stack s)"
    and ops': "ops s' = ops s @ [Pop (last (stack s))]"
  shows "gen_inv s'"
proof -
  let ?c = "last (stack s)"
  let ?G = "grid (width (self s)) (height (self s))"
  let ?V = "visited s"
  from inv have sh: "inv_shape s" and gr: "inv_graph s" and cl: "inv_closed s" and op: "inv_ops s"
    by (simp_all add: gen_inv_def)
  from ne have cst: "?c \<in> set (stack s)" by simp
  with sh have cV: "?c \<in> ?V"
    by (rule inv_shape_stack_grid)
  from sh have dst: "distinct (stack s)" and sub: "set (stack s) \<subseteq> ?V"
    by (simp_all add: inv_shape_def)
  obtain xs where xs: "stack s = xs @ [?c]"
    using ne by (metis append_butlast_last_id)
  then have bxs: "butlast (stack s) = xs" by (metis butlast_snoc)
  from dst xs have cxs: "?c \<notin> set xs"
    by (metis distinct_append distinct.simps(2) disjoint_insert(1) Int_commute list.simps(15))
  have bl: "set (butlast (stack s)) = set (stack s) - {?c}"
    unfolding bxs using cxs by (subst xs) auto
  have diff: "?V - set (butlast (stack s)) = insert ?c (?V - set (stack s))"
    unfolding bl using cV by blast
  have "set (butlast (stack s)) \<subseteq> ?V"
    unfolding bl using sub by blast
  with sh dst have "inv_shape s'"
    by (simp add: inv_shape_def self' vis' st' distinct_butlast)
  moreover have "inv_graph s'"
    using gr by (simp add: inv_graph_def self' vis')
  moreover have "inv_closed s'"
  proof -
    have "n \<in> ?V" if "n \<in> ?G" "facing ?c n \<noteq> None" for n
    proof (rule ccontr)
      assume "n \<notin> ?V"
      from that(2) obtain d where "facing ?c n = Some d" by blast
      then obtain dn where "(n, d, dn) \<in> set (cand ?c)"
        using facing_cand by blast
      with that(1) \<open>n \<notin> ?V\<close>
      have "(n, d, dn) \<in> set (unvisited_neighbors (self s) ?V ?c)"
        by (simp add: unvisited_neighbors_iff)
      with nb show False by simp
    qed
    with cl show ?thesis
      unfolding inv_closed_def self' vis' st' diff by blast
  qed
  moreover have "inv_ops s'"
  proof -
    from op cst have "?c \<notin> set (popped (ops s))"
      by (simp add: inv_ops_def)
    with op show ?thesis
      by (simp add: inv_ops_def self' vis' st' ops' diff)
  qed
  ultimately show ?thesis
    by (simp add: gen_inv_def)
qed


lemma gen_step_inv:
  assumes inv: "gen_inv s" and ne: "stack s \<noteq> []"
  shows "\<exists>s'. gen_step rb s = Inr s' \<and> gen_inv s' \<and>
           width (self s') = width (self s) \<and> height (self s') = height (self s)"
proof (cases "unvisited_neighbors (self s) (visited s) (last (stack s)) = []")
  case True
  from gen_step_pop[OF True, of rb] obtain s' where
    s': "gen_step rb s = Inr s'" "self s' = self s" "visited s' = visited s"
      "stack s' = butlast (stack s)" "ops s' = ops s @ [Pop (last (stack s))]"
    by blast
  from gen_inv_pop[OF inv ne True s'(2-5)] s'(1,2) show ?thesis
    by simp
next
  case False
  from inv have "inv_shape s" by (simp add: gen_inv_def)
  from gen_step_push[OF this ne False, of rb] obtain s' n dc dn wc wn where
    s': "gen_step rb s = Inr s'"
      "(n, dc, dn) \<in> set (unvisited_neighbors (self s) (visited s) (last (stack s)))"
      "cells (self s) (last (stack s)) = Some wc" "cells (self s) n = Some wn"
      "self s' = carve (self s) (last (stack s)) dc wc n dn wn"
      "visited s' = insert n (visited s)" "stack s' = stack s @ [n]"
      "ops s' = ops s @ [Push n]"
    by blast
  from gen_inv_push[OF inv ne s'(2-8)] s'(1,5) show ?thesis
    by simp
qed

lemma generate_loop_inv:
  "gen_inv s \<Longrightarrow>
     \<exists>s'. generate_loop rb s = Inr s' \<and> gen_inv s' \<and> stack s' = [] \<and>
       width (self s') = width (self s) \<and> height (self s') = height (self s)"
proof (induction rb s rule: generate_loop.induct)
  case (1 rb s)
  show ?case
  proof (cases "stack s = []")
    case True
    with "1.prems" show ?thesis
      by (simp add: generate_loop.simps)
  next
    case False
    from gen_step_inv[OF "1.prems" False, of rb] obtain s1 where
      s1: "gen_step rb s = Inr s1" "gen_inv s1"
        "width (self s1) = width (self s)" "height (self s1) = height (self s)"
      by blast
    from "1.IH"[OF False s1(1) s1(2)] obtain s' where
      "generate_loop rb s1 = Inr s'" "gen_inv s'" "stack s' = []"
      "width (self s') = width (self s1)" "height (self s') = height (self s1)"
      by blast
    with False s1 show ?thesis
      by (subst generate_loop.simps) simp
  qed
qed

subsection \<open>The invariant holds at the start\<close>

lemma all_walls_closed: "all_walls d \<noteq> Some False"
  by (simp add: all_walls_def)

lemma dom_all_walls: "dom all_walls = wall_keys"
  by (auto simp: all_walls_def wall_keys_def)

lemma dom_init_cells: "dom (init_cells w h) = grid w h"
  by (auto simp: init_cells_apply split: if_splits)

lemma gen_inv_init:
  assumes "1 \<le> w" and "1 \<le> h"
  shows "gen_inv \<lparr>self = \<lparr>width = w, height = h, cells = init_cells w h\<rparr>,
            stack = [(0, 0)], visited = {(0, 0)}, rng = g, ops = [Push (0, 0)]\<rparr>"
proof -
  let ?m = "\<lparr>width = w, height = h, cells = init_cells w h\<rparr>"
  from assms have o: "(0, 0) \<in> grid w h"
    by (simp add: grid_def)
  have no: "\<not> open_step ?m a b" for a b
    by (simp add: open_step_def init_cells_apply all_walls_closed split: option.splits)
  then have e: "open_edges ?m = {}"
    by (simp add: open_edges_def)
  have "\<exists>!p. simple_path (open_step ?m) (0, 0) (0, 0) p"
  proof (rule ex1I)
    show "simple_path (open_step ?m) (0, 0) (0, 0) [(0, 0)]"
      by (simp add: simple_path_def path_between_def)
  qed (rule simple_path_same)
  with no e have "inv_graph \<lparr>self = ?m, stack = [(0, 0)], visited = {(0, 0)}, rng = g,
      ops = [Push (0, 0)]\<rparr>"
    by (simp add: inv_graph_def)
  moreover from o have "inv_shape \<lparr>self = ?m, stack = [(0, 0)], visited = {(0, 0)}, rng = g,
      ops = [Push (0, 0)]\<rparr>"
    by (auto simp: inv_shape_def dom_init_cells init_cells_apply dom_all_walls split: if_splits)
  ultimately show ?thesis
    by (simp add: gen_inv_def inv_closed_def inv_ops_def)
qed

subsection \<open>When the stack is empty every cell has been visited\<close>

lemma closed_covers_grid:
  assumes o: "(0, 0) \<in> V"
    and cl: "\<And>c n. c \<in> V \<Longrightarrow> n \<in> grid w h \<Longrightarrow> facing c n \<noteq> None \<Longrightarrow> n \<in> V"
  shows "grid w h \<subseteq> V"
proof
  fix c assume cG: "c \<in> grid w h"
  obtain x y where c: "c = (x, y)" by (cases c)
  with cG have b: "0 \<le> x" "x < w" "0 \<le> y" "y < h"
    by (simp_all add: grid_def)
  have row: "i < w \<longrightarrow> (i, 0) \<in> V" if "0 \<le> i" for i
    using that
  proof (induction i rule: int_ge_induct)
    case base
    from o show ?case by simp
  next
    case (step i)
    show ?case
    proof
      assume lt: "i + 1 < w"
      with step have "(i, 0) \<in> V" by simp
      moreover from lt step b have "(i + 1, 0) \<in> grid w h"
        by (simp add: grid_def)
      moreover have "facing (i, 0) (i + 1, 0) \<noteq> None"
        by (simp add: facing_def)
      ultimately show "(i + 1, 0) \<in> V" by (rule cl)
    qed
  qed
  with b have x0: "(x, 0) \<in> V" by simp
  have col: "j < h \<longrightarrow> (x, j) \<in> V" if "0 \<le> j" for j
    using that
  proof (induction j rule: int_ge_induct)
    case base
    from x0 show ?case by simp
  next
    case (step j)
    show ?case
    proof
      assume lt: "j + 1 < h"
      with step have "(x, j) \<in> V" by simp
      moreover from lt step b have "(x, j + 1) \<in> grid w h"
        by (simp add: grid_def)
      moreover have "facing (x, j) (x, j + 1) \<noteq> None"
        by (simp add: facing_def)
      ultimately show "(x, j + 1) \<in> V" by (rule cl)
    qed
  qed
  with b c show "c \<in> V" by simp
qed

lemma gen_inv_all_visited:
  assumes inv: "gen_inv s" and e: "stack s = []"
  shows "visited s = grid (width (self s)) (height (self s))"
proof
  from inv show "visited s \<subseteq> grid (width (self s)) (height (self s))"
    by (simp add: gen_inv_def inv_shape_def)
next
  from inv have o: "(0, 0) \<in> visited s"
    by (simp add: gen_inv_def inv_shape_def)
  from inv e have cl: "c \<in> visited s \<Longrightarrow> n \<in> grid (width (self s)) (height (self s)) \<Longrightarrow>
      facing c n \<noteq> None \<Longrightarrow> n \<in> visited s" for c n
    unfolding gen_inv_def inv_closed_def by simp
  from o cl show "grid (width (self s)) (height (self s)) \<subseteq> visited s"
    by (rule closed_covers_grid)
qed

lemma card_grid: "card (grid w h) = nat w * nat h"
  by (simp add: grid_def)

section \<open>Generation: the maze returned\<close>

lemma generate_result:
  assumes "1 \<le> w" and "1 \<le> h"
  shows "\<exists>s. generate rb (walled w h) g = Inr s \<and>
           gen_inv s \<and> stack s = [] \<and> width (self s) = w \<and> height (self s) = h \<and>
           visited s = grid w h"
proof -
  from generate_loop_inv[OF gen_inv_init[OF assms, of g], of rb] obtain s where
    s: "generate rb (walled w h) g = Inr s"
      "gen_inv s" "stack s = []" "width (self s) = w" "height (self s) = h"
    by (auto simp: generate_def walled_def)
  from gen_inv_all_visited[OF s(2,3)] s show ?thesis
    by simp
qed

lemma gen_inv_tree_maze:
  assumes inv: "gen_inv s" and e: "stack s = []"
  shows "tree_maze (self s)"
proof -
  from gen_inv_all_visited[OF assms] have v: "visited s = grid (width (self s)) (height (self s))" .
  from inv have "inv_shape s" "inv_graph s"
    by (simp_all add: gen_inv_def)
  then show ?thesis
    unfolding tree_maze_def inv_shape_def inv_graph_def v by blast
qed

lemma create_tree_maze:
  assumes "1 \<le> w" and "1 \<le> h"
  shows "\<exists>m g'. create rb sd w h seed g0 = Inr (m, g') \<and> width m = w \<and> height m = h \<and>
           tree_maze m"
proof -
  let ?g = "case seed of Some sv \<Rightarrow> sd sv | None \<Rightarrow> g0"
  from generate_result[OF assms, of rb ?g] obtain s where
    s: "generate rb (walled w h) ?g = Inr s"
      "gen_inv s" "stack s = []" "width (self s) = w" "height (self s) = h"
    by blast
  from s(1) have "create rb sd w h seed g0 = Inr (self s, rng s)"
    by (simp add: create_def)
  with gen_inv_tree_maze[OF s(2,3)] s(4,5) show ?thesis
    by blast
qed

lemma tree_maze_well_formed: "tree_maze m \<Longrightarrow> well_formed m"
  unfolding tree_maze_def well_formed_def
  by (metis domD order_refl)

section \<open>The solver on well-formed mazes\<close>

subsection \<open>The open neighbours of a cell\<close>

lemma neighbors_open_self: "snd (neighbors_open m c) = m"
  by (cases c) (simp add: neighbors_open_def Let_def split: sum.splits)

lemma lookup_wall_missing: "cells m c = None \<Longrightarrow> lookup_wall m c k = Inl KeyError"
  by (simp add: lookup_wall_def)

lemma neighbors_open_missing:
  "cells m c = None \<Longrightarrow> neighbors_open m c = (Inl KeyError, m)"
  by (cases c) (simp add: neighbors_open_def lookup_wall_missing)

lemma open_step_iff:
  assumes "cells m (x, y) = Some wl" and "(x, y) \<in> grid (width m) (height m)"
  shows "open_step m (x, y) b \<longleftrightarrow>
     (b = (x, y - 1) \<and> wl ''N'' = Some False \<and> y - 1 \<ge> 0) \<or>
     (b = (x, y + 1) \<and> wl ''S'' = Some False \<and> y + 1 < height m) \<or>
     (b = (x + 1, y) \<and> wl ''E'' = Some False \<and> x + 1 < width m) \<or>
     (b = (x - 1, y) \<and> wl ''W'' = Some False \<and> x - 1 \<ge> 0)"
  using assms
  by (cases b) (auto simp: open_step_def facing_def grid_def split: if_splits)

lemma neighbors_open_wf:
  assumes wf: "well_formed m" and aG: "a \<in> grid (width m) (height m)"
  shows "\<exists>nbs. neighbors_open m a = (Inr nbs, m) \<and> set nbs = {b. open_step m a b}"
proof -
  obtain x y where a: "a = (x, y)" by (cases a)
  from wf aG obtain wl where wl: "cells m a = Some wl" and k: "wall_keys \<subseteq> dom wl"
    unfolding well_formed_def by blast
  from k obtain bn bs be bw where
    b: "wl ''N'' = Some bn" "wl ''S'' = Some bs" "wl ''E'' = Some be" "wl ''W'' = Some bw"
    unfolding wall_keys_def by (auto simp: dom_def)
  have l: "lookup_wall m (x, y) ''N'' = Inr bn" "lookup_wall m (x, y) ''S'' = Inr bs"
    "lookup_wall m (x, y) ''E'' = Inr be" "lookup_wall m (x, y) ''W'' = Inr bw"
    using wl b a by (simp_all add: lookup_wall_def)
  let ?r1 = "if \<not> bn \<and> y - 1 \<ge> 0 then [(x, y - 1)] else []"
  let ?r2 = "if \<not> bs \<and> y + 1 < height m then ?r1 @ [(x, y + 1)] else ?r1"
  let ?r3 = "if \<not> be \<and> x + 1 < width m then ?r2 @ [(x + 1, y)] else ?r2"
  let ?r4 = "if \<not> bw \<and> x - 1 \<ge> 0 then ?r3 @ [(x - 1, y)] else ?r3"
  have n: "neighbors_open m a = (Inr ?r4, m)"
    unfolding a neighbors_open_def by (simp add: l Let_def)
  have "c \<in> set ?r4 \<longleftrightarrow> open_step m a c" for c
    unfolding a using open_step_iff[OF wl[unfolded a] aG[unfolded a], of c] b
    by auto
  then have "set ?r4 = {b. open_step m a b}" by blast
  with n show ?thesis by blast
qed


subsection \<open>Predecessor chains\<close>

lemma chain_hd: "chain cf v p \<Longrightarrow> p \<noteq> [] \<and> hd p = v"
  by (induction rule: chain.induct) simp_all

lemma chain_update:
  "chain cf v p \<Longrightarrow> nb \<notin> set p \<Longrightarrow> chain (cf(nb \<mapsto> x)) v p"
proof (induction rule: chain.induct)
  case (root v)
  then show ?case by (auto intro: chain.root)
next
  case (link v u p)
  then show ?case by (auto intro: chain.link)
qed

lemma walk_back_chain:
  "chain cf v p \<Longrightarrow> walk_back cf (Some v) acc = Some (acc @ p)"
proof (induction arbitrary: acc rule: chain.induct)
  case (root v)
  then show ?case
    by (simp add: walk_back.simps cf_get_def)
next
  case (link v u p)
  from link.hyps(1) have "walk_back cf (Some v) acc = walk_back cf (Some u) (acc @ [v])"
    by (subst walk_back.simps) (simp add: cf_get_def)
  with link.IH[of "acc @ [v]"] show ?case by simp
qed

lemma walk_back_undiscovered: "cf v = None \<Longrightarrow> walk_back cf (Some v) acc = Some (acc @ [v])"
  by (simp add: walk_back.simps cf_get_def)

lemma chains_ok_visit:
  assumes ok: "chains_ok R start cf" and cur: "cur \<in> dom cf" and r: "R cur nb"
    and new: "cf nb = None"
  shows "chains_ok R start (cf(nb \<mapsto> Some cur))"
  unfolding chains_ok_def
proof
  fix v assume v: "v \<in> dom (cf(nb \<mapsto> Some cur))"
  let ?cf = "cf(nb \<mapsto> Some cur)"
  from new have nd: "nb \<notin> dom cf" by blast
  show "\<exists>p. chain ?cf v p \<and> last p = start \<and> distinct p \<and>
          successively (\<lambda>x y. R y x) p \<and> set p \<subseteq> dom ?cf"
  proof (cases "v = nb")
    case True
    from ok cur obtain p where p: "chain cf cur p" "last p = start" "distinct p"
      "successively (\<lambda>x y. R y x) p" "set p \<subseteq> dom cf"
      unfolding chains_ok_def by blast
    from p(5) nd have np: "nb \<notin> set p" by blast
    from chain_hd[OF p(1)] have h: "p \<noteq> []" "hd p = cur" by simp_all
    have "chain ?cf nb (nb # p)"
      by (rule chain.link[where u = cur]) (simp, rule chain_update[OF p(1) np])
    moreover from h p(2) have "last (nb # p) = start" by simp
    moreover from np p(3) have "distinct (nb # p)" by simp
    moreover from h r p(4) have "successively (\<lambda>x y. R y x) (nb # p)"
      by (simp add: successively_Cons)
    moreover from p(5) have "set (nb # p) \<subseteq> dom ?cf" by auto
    ultimately show ?thesis using True by blast
  next
    case False
    with v have "v \<in> dom cf" by auto
    with ok obtain p where p: "chain cf v p" "last p = start" "distinct p"
      "successively (\<lambda>x y. R y x) p" "set p \<subseteq> dom cf"
      unfolding chains_ok_def by blast
    from p(5) nd have np: "nb \<notin> set p" by blast
    from chain_update[OF p(1) np] have "chain ?cf v p" .
    moreover from p(5) have "set p \<subseteq> dom ?cf" by auto
    ultimately show ?thesis using p(2-4) by blast
  qed
qed

subsection \<open>One expansion\<close>

lemma fold_visit:
  assumes "fold (visit_nb cur) nbs (q, cf) = (q', cf')"
    and "chains_ok R start cf" and "cur \<in> dom cf" and "\<forall>nb\<in>set nbs. R cur nb"
    and "finite G" and "set nbs \<subseteq> G"
  shows "dom cf' = dom cf \<union> set nbs \<and> set q' = set q \<union> (set nbs - dom cf) \<and>
         chains_ok R start cf' \<and>
         card (G - dom cf') + length q' = card (G - dom cf) + length q"
  using assms
proof (induction nbs arbitrary: q cf)
  case Nil
  then show ?case by simp
next
  case (Cons nb nbs)
  show ?case
  proof (cases "cf nb = None")
    case False
    then have "visit_nb cur nb (q, cf) = (q, cf)"
      by (simp add: visit_nb_def)
    with Cons.prems have f: "fold (visit_nb cur) nbs (q, cf) = (q', cf')"
      by simp
    from Cons.prems have pr: "\<forall>nb\<in>set nbs. R cur nb" "finite G" "set nbs \<subseteq> G"
      by simp_all
    from Cons.IH[OF f Cons.prems(2,3) pr]
    have ih: "dom cf' = dom cf \<union> set nbs" "set q' = set q \<union> (set nbs - dom cf)"
      "chains_ok R start cf'"
      "card (G - dom cf') + length q' = card (G - dom cf) + length q"
      by blast+
    from False have nd: "nb \<in> dom cf" by blast
    from ih(1) nd have d: "dom cf' = dom cf \<union> set (nb # nbs)" by auto
    from ih(2) nd have q: "set q' = set q \<union> (set (nb # nbs) - dom cf)" by auto
    from d q ih(3,4) show ?thesis by blast
  next
    case True
    let ?cf = "cf(nb \<mapsto> Some cur)"
    from True have v: "visit_nb cur nb (q, cf) = (q @ [nb], ?cf)"
      by (simp add: visit_nb_def)
    with Cons.prems have f: "fold (visit_nb cur) nbs (q @ [nb], ?cf) = (q', cf')"
      by simp
    from Cons.prems have ok: "chains_ok R start ?cf"
      by (intro chains_ok_visit) (simp_all add: True)
    from Cons.prems have "cur \<in> dom ?cf" by simp
    moreover from Cons.prems have pr: "\<forall>nb\<in>set nbs. R cur nb" "finite G" "set nbs \<subseteq> G"
      by simp_all
    ultimately
    have ih: "dom cf' = dom ?cf \<union> set nbs" "set q' = set (q @ [nb]) \<union> (set nbs - dom ?cf)"
      "chains_ok R start cf'"
      "card (G - dom cf') + length q' = card (G - dom ?cf) + length (q @ [nb])"
      using Cons.IH[OF f ok] by blast+
    from True have nd: "nb \<notin> dom cf" by blast
    from Cons.prems have nG: "nb \<in> G" by simp
    have "G - dom ?cf = (G - dom cf) - {nb}" by auto
    moreover from nG nd have "nb \<in> G - dom cf" by simp
    ultimately have "card (G - dom ?cf) + 1 = card (G - dom cf)"
      using \<open>finite G\<close>
      by (metis Suc_eq_plus1 card_Suc_Diff1 finite_Diff)
    with ih(4) have c: "card (G - dom cf') + length q' = card (G - dom cf) + length q"
      by simp
    from ih(1) have d: "dom cf' = dom cf \<union> set (nb # nbs)" by auto
    from ih(2) nd have q: "set q' = set q \<union> (set (nb # nbs) - dom cf)" by auto
    from c d q ih(3) show ?thesis by blast
  qed
qed


subsection \<open>The search loop\<close>

lemma bfs_loop_wf:
  assumes wf: "well_formed m"
  shows "bfs_inv m start q cf \<Longrightarrow>
     \<exists>cf'. bfs_loop goal (m, q, cf) = Some (Inr cf', m) \<and> bfs_post m start goal cf'"
proof (induction "card (grid (width m) (height m) - dom cf) + length q"
    arbitrary: q cf rule: less_induct)
  case less
  let ?G = "grid (width m) (height m)"
  let ?R = "open_step m"
  from less.prems have inv: "set q \<subseteq> dom cf" "dom cf \<subseteq> ?G" "start \<in> dom cf"
    "chains_ok ?R start cf" "\<forall>v\<in>dom cf - set q. \<forall>b. ?R v b \<longrightarrow> b \<in> dom cf"
    unfolding bfs_inv_def by blast+
  show ?case
  proof (cases q)
    case Nil
    then have "bfs_loop goal (m, q, cf) = Some (Inr cf, m)"
      by (subst bfs_loop.simps) simp
    moreover from inv Nil have "bfs_post m start goal cf"
      unfolding bfs_post_def by simp
    ultimately show ?thesis by blast
  next
    case (Cons cur rest)
    from inv(1) Cons have curd: "cur \<in> dom cf" by simp
    show ?thesis
    proof (cases "cur = goal")
      case True
      with Cons have "bfs_loop goal (m, q, cf) = Some (Inr cf, m)"
        by (subst bfs_loop.simps) simp
      moreover from inv curd True have "bfs_post m start goal cf"
        unfolding bfs_post_def by simp
      ultimately show ?thesis by blast
    next
      case False
      from curd inv(2) have curG: "cur \<in> ?G" by blast
      from neighbors_open_wf[OF wf curG] obtain nbs where
        nbs: "neighbors_open m cur = (Inr nbs, m)" "set nbs = {b. ?R cur b}"
        by blast
      obtain q' cf' where f: "fold (visit_nb cur) nbs (rest, cf) = (q', cf')"
        by (cases "fold (visit_nb cur) nbs (rest, cf)")
      from nbs(2) have r: "\<forall>nb\<in>set nbs. ?R cur nb" by simp
      from nbs(2) have sub: "set nbs \<subseteq> ?G"
        by (auto simp: open_step_def)
      from fold_visit[OF f inv(4) curd r finite_grid sub]
      have fv: "dom cf' = dom cf \<union> set nbs" "set q' = set rest \<union> (set nbs - dom cf)"
        "chains_ok ?R start cf'"
        "card (?G - dom cf') + length q' = card (?G - dom cf) + length rest"
        by blast+
      have "bfs_inv m start q' cf'"
      proof -
        from fv(1,2) inv(1) Cons have a: "set q' \<subseteq> dom cf'" by auto
        from fv(1) inv(2) sub have b: "dom cf' \<subseteq> ?G" by auto
        from fv(1) inv(3) have c: "start \<in> dom cf'" by auto
        have d: "b \<in> dom cf'" if v: "v \<in> dom cf' - set q'" and st: "?R v b" for v b
        proof (cases "v = cur")
          case True
          with st nbs(2) fv(1) show ?thesis by auto
        next
          case vc: False
          from v fv(1,2) have "v \<in> dom cf" by auto
          moreover from v fv(2) vc Cons have "v \<notin> set q" by auto
          ultimately have "b \<in> dom cf" using inv(5) st by blast
          with fv(1) show ?thesis by auto
        qed
        from a b c d fv(3) show ?thesis
          unfolding bfs_inv_def by blast
      qed
      moreover from fv(4) Cons
      have "card (?G - dom cf') + length q' < card (?G - dom cf) + length q"
        by simp
      ultimately obtain cf'' where
        r: "bfs_loop goal (m, q', cf') = Some (Inr cf'', m)" "bfs_post m start goal cf''"
        using less.hyps by blast
      from Cons False nbs(1) f r(1) have "bfs_loop goal (m, q, cf) = Some (Inr cf'', m)"
        by (subst bfs_loop.simps) simp
      with r(2) show ?thesis by blast
    qed
  qed
qed


subsection \<open>The solver\<close>

lemma bfs_inv_start:
  assumes "start \<in> grid (width m) (height m)"
  shows "bfs_inv m start [start] [start \<mapsto> None]"
proof -
  have "chain [start \<mapsto> None] start [start]"
    by (rule chain.root) simp
  then have "chains_ok (open_step m) start [start \<mapsto> None]"
    unfolding chains_ok_def by (intro ballI exI[of _ "[start]"]) auto
  with assms show ?thesis
    by (simp add: bfs_inv_def)
qed

lemma solve_bfs_wf:
  assumes wf: "well_formed m" and sG: "start \<in> grid (width m) (height m)"
    and goal: "goal = (case goal_arg of None \<Rightarrow> (width m - 1, height m - 1) | Some gl \<Rightarrow> gl)"
  shows "\<exists>path. solve_bfs m start goal_arg = Some (Inr path, m) \<and>
     (if \<exists>p. path_between (open_step m) start goal p
      then simple_path (open_step m) start goal path else path = [goal])"
proof -
  let ?R = "open_step m"
  from bfs_loop_wf[OF wf bfs_inv_start[OF sG], of goal] obtain cf where
    loop: "bfs_loop goal (m, [start], [start \<mapsto> None]) = Some (Inr cf, m)"
    and post: "bfs_post m start goal cf"
    by blast
  from post have st: "start \<in> dom cf" and ok: "chains_ok ?R start cf"
    and alt: "goal \<in> dom cf \<or> (\<forall>v\<in>dom cf. \<forall>b. ?R v b \<longrightarrow> b \<in> dom cf)"
    unfolding bfs_post_def by blast+
  show ?thesis
  proof (cases "goal \<in> dom cf")
    case True
    with ok obtain p where p: "chain cf goal p" "last p = start" "distinct p"
      "successively (\<lambda>x y. ?R y x) p"
      unfolding chains_ok_def by blast
    from chain_hd[OF p(1)] have h: "p \<noteq> []" "hd p = goal" by simp_all
    from walk_back_chain[OF p(1), of "[]"] have "walk_back cf (Some goal) [] = Some p"
      by simp
    with loop goal have "solve_bfs m start goal_arg = Some (Inr (rev p), m)"
      by (simp add: solve_bfs_def)
    moreover from h p have sp: "simple_path ?R start goal (rev p)"
      by (simp add: simple_path_def path_between_def hd_rev last_rev)
    moreover from sp have "\<exists>p. path_between ?R start goal p"
      unfolding simple_path_def by blast
    ultimately show ?thesis by auto
  next
    case False
    with alt have cl: "\<And>x y. x \<in> dom cf \<Longrightarrow> ?R x y \<Longrightarrow> y \<in> dom cf" by blast
    have unreach: "\<not> (\<exists>p. path_between ?R start goal p)"
    proof
      assume "\<exists>p. path_between ?R start goal p"
      then obtain p where p: "path_between ?R start goal p" by blast
      have "set p \<subseteq> dom cf"
        by (rule path_between_set[OF p st]) (rule cl)
      moreover from p have "goal \<in> set p"
        unfolding path_between_def using last_in_set by blast
      ultimately show False using False by blast
    qed
    from False have "cf goal = None" by blast
    then have "walk_back cf (Some goal) [] = Some ([] @ [goal])"
      by (rule walk_back_undiscovered)
    with loop goal
    have "solve_bfs m start goal_arg = Some (Inr [goal], m)"
      by (simp add: solve_bfs_def)
    with unreach show ?thesis by auto
  qed
qed

lemma solve_bfs_outside:
  assumes "cells m start = None" and "goal_arg \<noteq> Some start"
    and "goal_arg = None \<longrightarrow> start \<noteq> (width m - 1, height m - 1)"
  shows "solve_bfs m start goal_arg = Some (Inl KeyError, m)"
proof -
  let ?goal = "case goal_arg of None \<Rightarrow> (width m - 1, height m - 1) | Some gl \<Rightarrow> gl"
  from assms(2,3) have "start \<noteq> ?goal"
    by (cases goal_arg) auto
  with assms(1) have "bfs_loop ?goal (m, [start], [start \<mapsto> None]) = Some (Inl KeyError, m)"
    by (subst bfs_loop.simps) (simp add: neighbors_open_missing)
  then show ?thesis
    by (simp add: solve_bfs_def)
qed

section \<open>Consequences for generated mazes\<close>

lemma open_step_grid: "open_step m a b \<Longrightarrow> a \<in> grid (width m) (height m) \<and> b \<in> grid (width m) (height m)"
  by (simp add: open_step_def)

lemma tree_maze_unique:
  assumes "tree_maze m" and "a \<in> grid (width m) (height m)" and "b \<in> grid (width m) (height m)"
  shows "\<exists>!p. simple_path (open_step m) a b p"
  using assms unfolding tree_maze_def by blast

lemma tree_maze_sym: "tree_maze m \<Longrightarrow> open_step m a b \<Longrightarrow> open_step m b a"
  unfolding tree_maze_def by blast

lemma tree_maze_no_cycle:
  assumes "tree_maze m"
  shows "\<not> cycle (open_step m) p"
proof (rule unique_paths_no_cycle[where V = "grid (width m) (height m)"])
  from assms show "\<forall>a\<in>grid (width m) (height m). \<forall>b\<in>grid (width m) (height m).
      \<exists>!p. simple_path (open_step m) a b p"
    unfolding tree_maze_def by (elim conjE)
qed (use assms in \<open>auto dest: open_step_grid tree_maze_sym\<close>)

lemma tree_maze_edges:
  assumes "tree_maze m" and "1 \<le> width m" and "1 \<le> height m"
  shows "int (card (open_edges m)) = width m * height m - 1"
proof -
  from assms(1) have "card (open_edges m) + 1 = nat (width m) * nat (height m)"
    unfolding tree_maze_def by (simp add: card_grid)
  then have "int (card (open_edges m)) + 1 = int (nat (width m) * nat (height m))"
    by (metis of_nat_Suc Suc_eq_plus1 add.commute)
  with assms(2,3) show ?thesis
    by simp
qed

text \<open>In a maze with unique simple paths the solver's path is that path, and no path
  is shorter.\<close>

lemma tree_maze_solve:
  assumes tm: "tree_maze m" and aG: "a \<in> grid (width m) (height m)"
    and bG: "b \<in> grid (width m) (height m)"
  shows "\<exists>path. solve_bfs m a (Some b) = Some (Inr path, m) \<and>
           simple_path (open_step m) a b path \<and>
           (\<forall>q. simple_path (open_step m) a b q \<longrightarrow> q = path) \<and>
           (\<forall>q. path_between (open_step m) a b q \<longrightarrow> length path \<le> length q)"
proof -
  let ?R = "open_step m"
  from tree_maze_unique[OF tm aG bG] obtain p0 where
    p0: "simple_path ?R a b p0" and u: "\<And>q. simple_path ?R a b q \<Longrightarrow> q = p0"
    by blast
  from p0 have reach: "\<exists>p. path_between ?R a b p"
    unfolding simple_path_def by blast
  from solve_bfs_wf[OF tree_maze_well_formed[OF tm] aG, of b "Some b"] reach
  obtain path where path: "solve_bfs m a (Some b) = Some (Inr path, m)"
    "simple_path ?R a b path"
    by auto
  from u[OF path(2)] have e: "path = p0" .
  have "length path \<le> length q" if "path_between ?R a b q" for q
  proof -
    from path_between_shorten[OF that] obtain p where "simple_path ?R a b p" "length p \<le> length q"
      by blast
    with u e show ?thesis by auto
  qed
  with path u e show ?thesis by blast
qed

lemma tree_maze_lookup:
  assumes "tree_maze m" and "c \<in> grid (width m) (height m)" and "k \<in> wall_keys"
  shows "\<exists>x. lookup_wall m c k = Inr x"
proof -
  from assms(1) have dm: "dom (cells m) = grid (width m) (height m)"
    and keys: "\<And>c wl. cells m c = Some wl \<Longrightarrow> dom wl = wall_keys"
    unfolding tree_maze_def by blast+
  from dm assms(2) obtain wl where wl: "cells m c = Some wl" by blast
  from keys[OF wl] assms(3) obtain x where "wl k = Some x" by blast
  with wl show ?thesis by (simp add: lookup_wall_def)
qed

section \<open>Further facts about the solver\<close>

lemma bfs_loop_self:
  assumes "bfs_loop goal st = Some r"
  shows "snd r = fst st"
proof (rule bfs_loop.raw_induct[OF _ assms])
  fix loop :: "cell \<Rightarrow> maze \<times> cell list \<times> came_from \<Rightarrow> ((error + came_from) \<times> maze) option"
  fix goal st r
  assume ih: "\<And>g st' y. loop g st' = Some y \<Longrightarrow> snd y = fst st'"
  assume eq: "(case st of
        (slf, [], cf) \<Rightarrow> Some (Inr cf, slf)
      | (slf, cur # rest, cf) \<Rightarrow>
          if cur = goal then Some (Inr cf, slf)
          else (case neighbors_open slf cur of
                  (Inl e, slf') \<Rightarrow> Some (Inl e, slf')
                | (Inr nbs, slf') \<Rightarrow>
                    (case fold (visit_nb cur) nbs (rest, cf) of
                       (queue', cf') \<Rightarrow> loop goal (slf', queue', cf')))) = Some r"
  obtain m q cf where st: "st = (m, q, cf)" by (cases st)
  show "snd r = fst st"
  proof (cases q)
    case Nil
    with eq st show ?thesis by auto
  next
    case (Cons cur rest)
    show ?thesis
    proof (cases "cur = goal")
      case True
      with eq st Cons show ?thesis by auto
    next
      case False
      obtain res m' where n: "neighbors_open m cur = (res, m')"
        by (cases "neighbors_open m cur")
      with neighbors_open_self[of m cur] have m': "m' = m" by simp
      show ?thesis
      proof (cases res)
        case (Inl e)
        with eq st Cons False n m' show ?thesis by auto
      next
        case (Inr nbs)
        obtain q' cf' where f: "fold (visit_nb cur) nbs (rest, cf) = (q', cf')"
          by (cases "fold (visit_nb cur) nbs (rest, cf)")
        with eq st Cons False n Inr have "loop goal (m', q', cf') = Some r"
          by simp
        from ih[OF this] m' st show ?thesis by simp
      qed
    qed
  qed
qed

lemma solve_bfs_self:
  assumes "solve_bfs m start goal_arg = Some (r, m')"
  shows "m' = m"
proof -
  let ?goal = "case goal_arg of None \<Rightarrow> (width m - 1, height m - 1) | Some gl \<Rightarrow> gl"
  from assms obtain x m1 where
    l: "bfs_loop ?goal (m, [start], [start \<mapsto> None]) = Some (x, m1)" and "m' = m1"
    by (auto simp: solve_bfs_def Let_def split: option.splits sum.splits)
  with bfs_loop_self[OF l] show ?thesis by simp
qed

lemma well_formed_walled: "well_formed (walled w h)"
  by (simp add: well_formed_def walled_def init_cells_apply dom_all_walls)




lemma solve_bfs_same: "solve_bfs m s (Some s) = Some (Inr [s], m)"
proof -
  have "bfs_loop s (m, [s], [s \<mapsto> None]) = Some (Inr [s \<mapsto> None], m)"
    by (subst bfs_loop.simps) simp
  moreover have "chain [s \<mapsto> None] s [s]"
    by (rule chain.root) simp
  from walk_back_chain[OF this, of "[]"] have "walk_back [s \<mapsto> None] (Some s) [] = Some [s]"
    by simp
  ultimately show ?thesis
    by (simp add: solve_bfs_def)
qed

lemma outside_unreachable:
  assumes "start \<in> grid (width m) (height m)" and "goal \<notin> grid (width m) (height m)"
  shows "\<not> (\<exists>p. path_between (open_step m) start goal p)"
proof
  assume "\<exists>p. path_between (open_step m) start goal p"
  then obtain p where p: "path_between (open_step m) start goal p" by blast
  have "set p \<subseteq> grid (width m) (height m)"
    by (rule path_between_set[OF p assms(1)]) (simp add: open_step_def)
  moreover from p have "goal \<in> set p"
    unfolding path_between_def using last_in_set by blast
  ultimately show False using assms(2) by blast
qed

lemma tree_maze_out_of_bounds:
  assumes tm: "tree_maze m"
  shows "start \<notin> grid (width m) (height m) \<Longrightarrow> goal \<noteq> start \<Longrightarrow>
           solve_bfs m start (Some goal) = Some (Inl KeyError, m)"
    and "start \<in> grid (width m) (height m) \<Longrightarrow> goal \<notin> grid (width m) (height m) \<Longrightarrow>
           solve_bfs m start (Some goal) = Some (Inr [goal], m)"
proof -
  assume "start \<notin> grid (width m) (height m)" "goal \<noteq> start"
  moreover from tm have "dom (cells m) = grid (width m) (height m)"
    by (simp add: tree_maze_def)
  ultimately have "cells m start = None" "Some goal \<noteq> Some start" by auto
  then show "solve_bfs m start (Some goal) = Some (Inl KeyError, m)"
    by (intro solve_bfs_outside) simp_all
next
  assume a: "start \<in> grid (width m) (height m)" "goal \<notin> grid (width m) (height m)"
  from solve_bfs_wf[OF tree_maze_well_formed[OF tm] a(1), of goal "Some goal"]
    outside_unreachable[OF a]
  show "solve_bfs m start (Some goal) = Some (Inr [goal], m)"
    by auto
qed



section \<open>Runs of the model\<close>

text \<open>The model on a 2 by 2 grid, with the sample draw: the stack operations of the
  generation, and the solver's paths on the maze generated.\<close>

lemma demo_generate:
  "map_sum id (\<lambda>s. (stack s, ops s, rng s)) (generate rb_demo (walled 2 2) 0) =
     Inr ([], [Push (0, 0), Push (0, 1), Push (1, 1), Push (1, 0),
               Pop (1, 0), Pop (1, 1), Pop (0, 1), Pop (0, 0)], 3)"
  by (simp add: generate_def walled_def generate_loop.simps gen_step_def unvisited_neighbors_def
      cand_def choice_def rb_demo_def init_cells_apply grid_def Let_def)

lemma demo_solve:
  "map_option fst (solve_bfs (fst (projr (create rb_demo sd_demo 2 2 None 0))) (0, 0) None) =
     Some (Inr [(0, 0), (0, 1), (1, 1)])"
  by (simp add: create_def walled_def generate_def generate_loop.simps gen_step_def
      unvisited_neighbors_def cand_def choice_def rb_demo_def init_cells_apply grid_def Let_def
      all_walls_def solve_bfs_def bfs_loop.simps walk_back.simps neighbors_open_def
      lookup_wall_def visit_nb_def cf_get_def)

lemma demo_solve_back:
  "map_option fst
     (solve_bfs (fst (projr (create rb_demo sd_demo 2 2 None 0))) (1, 0) (Some (0, 0))) =
     Some (Inr [(1, 0), (1, 1), (0, 1), (0, 0)])"
  by (simp add: create_def walled_def generate_def generate_loop.simps gen_step_def
      unvisited_neighbors_def cand_def choice_def rb_demo_def init_cells_apply grid_def Let_def
      all_walls_def solve_bfs_def bfs_loop.simps walk_back.simps neighbors_open_def
      lookup_wall_def visit_nb_def cf_get_def)

section \<open>Claims\<close>

text \<open>
  C1. For every width and height of at least 1, with or without a seed and whatever the
  generator draws, \<open>create\<close> returns a perfect maze: any two cells of the rectangle are
  joined by a path of open steps, the number of open edges is \<open>w * h - 1\<close>, there is no
  cycle, and between any two cells there is exactly one simple path.
\<close>

theorem create_perfect:
  assumes "1 \<le> w" and "1 \<le> h"
  shows "\<exists>m g'. create rb sd w h seed g0 = Inr (m, g') \<and> width m = w \<and> height m = h \<and>
     (\<forall>a\<in>grid w h. \<forall>b\<in>grid w h. \<exists>p. path_between (open_step m) a b p) \<and>
     int (card (open_edges m)) = w * h - 1 \<and>
     (\<forall>p. \<not> cycle (open_step m) p) \<and>
     (\<forall>a\<in>grid w h. \<forall>b\<in>grid w h. \<exists>!p. simple_path (open_step m) a b p)"
proof -
  from create_tree_maze[OF assms, of rb sd seed g0] obtain m g' where
    m: "create rb sd w h seed g0 = Inr (m, g')" "width m = w" "height m = h" "tree_maze m"
    by blast
  from m have u: "\<forall>a\<in>grid w h. \<forall>b\<in>grid w h. \<exists>!p. simple_path (open_step m) a b p"
    using tree_maze_unique by blast
  then have c: "\<forall>a\<in>grid w h. \<forall>b\<in>grid w h. \<exists>p. path_between (open_step m) a b p"
    unfolding simple_path_def by blast
  from tree_maze_edges[OF m(4)] assms m(2,3)
  have e: "int (card (open_edges m)) = w * h - 1" by simp
  from tree_maze_no_cycle[OF m(4)] have a: "\<forall>p. \<not> cycle (open_step m) p" by blast
  from m(1-3) u c e a show ?thesis by blast
qed

theorem create_perfect_witness:
  "(1::int) \<le> 2 \<and> (1::int) \<le> 2 \<and>
   (\<exists>m g'. create rb_demo sd_demo 2 2 None 0 = Inr (m, g') \<and> width m = 2 \<and> height m = 2 \<and>
     (\<forall>a\<in>grid 2 2. \<forall>b\<in>grid 2 2. \<exists>p. path_between (open_step m) a b p) \<and>
     int (card (open_edges m)) = 2 * 2 - 1 \<and>
     (\<forall>p. \<not> cycle (open_step m) p) \<and>
     (\<forall>a\<in>grid 2 2. \<forall>b\<in>grid 2 2. \<exists>!p. simple_path (open_step m) a b p))"
proof -
  have h: "(1::int) \<le> 2" by simp
  from create_perfect[OF h h, of rb_demo sd_demo None 0] h show ?thesis
    by blast
qed

text \<open>
  C2. In a generated maze, for in-bounds cells \<open>a\<close> and \<open>b\<close>, \<open>solve_bfs(a, b)\<close> returns
  a sequence that starts at \<open>a\<close>, ends at \<open>b\<close>, moves by open steps between unit-adjacent
  cells and repeats no cell; it is the only simple path from \<open>a\<close> to \<open>b\<close>, and no path
  from \<open>a\<close> to \<open>b\<close> has fewer edges, so its edge count is the distance in the tree.
\<close>

theorem solve_bfs_shortest_path:
  assumes "1 \<le> w" and "1 \<le> h" and "a \<in> grid w h" and "b \<in> grid w h"
  shows "\<exists>m g'. create rb sd w h seed g0 = Inr (m, g') \<and>
     (\<exists>path. solve_bfs m a (Some b) = Some (Inr path, m) \<and>
        path \<noteq> [] \<and> hd path = a \<and> last path = b \<and>
        successively (open_step m) path \<and> distinct path \<and>
        (\<forall>q. simple_path (open_step m) a b q \<longrightarrow> q = path) \<and>
        (\<forall>q. path_between (open_step m) a b q \<longrightarrow> length path - 1 \<le> length q - 1))"
proof -
  from create_tree_maze[OF assms(1,2), of rb sd seed g0] obtain m g' where
    m: "create rb sd w h seed g0 = Inr (m, g')" "width m = w" "height m = h" "tree_maze m"
    by blast
  from assms(3,4) m(2,3) have "a \<in> grid (width m) (height m)" "b \<in> grid (width m) (height m)"
    by simp_all
  from tree_maze_solve[OF m(4) this] obtain path where
    p: "solve_bfs m a (Some b) = Some (Inr path, m)" "simple_path (open_step m) a b path"
      "\<forall>q. simple_path (open_step m) a b q \<longrightarrow> q = path"
      "\<forall>q. path_between (open_step m) a b q \<longrightarrow> length path \<le> length q"
    by blast
  from p(4) have "\<forall>q. path_between (open_step m) a b q \<longrightarrow> length path - 1 \<le> length q - 1"
    using diff_le_mono by blast
  with p(1-3) m(1) show ?thesis
    unfolding simple_path_def path_between_def by blast
qed

theorem solve_bfs_shortest_path_witness:
  "(1::int) \<le> 2 \<and> (1::int) \<le> 2 \<and> (0, 0) \<in> grid 2 2 \<and> (1, 1) \<in> grid 2 2 \<and>
   (\<exists>m g'. create rb_demo sd_demo 2 2 None 0 = Inr (m, g') \<and>
     (\<exists>path. solve_bfs m (0, 0) (Some (1, 1)) = Some (Inr path, m) \<and>
        path \<noteq> [] \<and> hd path = (0, 0) \<and> last path = (1, 1) \<and>
        successively (open_step m) path \<and> distinct path \<and>
        (\<forall>q. simple_path (open_step m) (0, 0) (1, 1) q \<longrightarrow> q = path) \<and>
        (\<forall>q. path_between (open_step m) (0, 0) (1, 1) q \<longrightarrow> length path - 1 \<le> length q - 1)))"
proof -
  have h: "(1::int) \<le> 2" by simp
  have a: "(0, 0) \<in> grid 2 2" and b: "(1, 1) \<in> grid 2 2"
    by (simp_all add: grid_def)
  from solve_bfs_shortest_path[OF h h a b, of rb_demo sd_demo None 0] h a b show ?thesis
    by blast
qed

text \<open>
  C3. A call of \<open>create\<close> with a seed does not depend on the state in which the
  module-level generator was before the call: two calls with the same seed and the same
  dimensions have the same result, whatever was drawn in between. For a width and a
  height of at least 1 both return the same maze, in which every cell of the rectangle has
  a boolean for each of its four walls.
\<close>

theorem create_seed_deterministic:
  "create rb sd w h (Some sv) g1 = create rb sd w h (Some sv) g2 \<and>
   (1 \<le> w \<and> 1 \<le> h \<longrightarrow>
      (\<exists>m g'. create rb sd w h (Some sv) g1 = Inr (m, g') \<and>
               create rb sd w h (Some sv) g2 = Inr (m, g') \<and>
               (\<forall>c\<in>grid w h. \<forall>k\<in>wall_keys. \<exists>x. lookup_wall m c k = Inr x)))"
proof (intro conjI impI)
  show eq: "create rb sd w h (Some sv) g1 = create rb sd w h (Some sv) g2"
    by (simp add: create_def)
  assume "1 \<le> w \<and> 1 \<le> h"
  then have "1 \<le> w" "1 \<le> h" by simp_all
  from create_tree_maze[OF this, of rb sd "Some sv" g1] obtain m g' where
    m: "create rb sd w h (Some sv) g1 = Inr (m, g')" "width m = w" "height m = h" "tree_maze m"
    by blast
  from m(1) eq have "create rb sd w h (Some sv) g2 = Inr (m, g')" by simp
  moreover from tree_maze_lookup[OF m(4)] m(2,3)
  have "\<forall>c\<in>grid w h. \<forall>k\<in>wall_keys. \<exists>x. lookup_wall m c k = Inr x" by blast
  ultimately show "\<exists>m g'. create rb sd w h (Some sv) g1 = Inr (m, g') \<and>
               create rb sd w h (Some sv) g2 = Inr (m, g') \<and>
               (\<forall>c\<in>grid w h. \<forall>k\<in>wall_keys. \<exists>x. lookup_wall m c k = Inr x)"
    using m(1) by blast
qed

theorem create_seed_deterministic_witness:
  "create rb_demo sd_demo 5 5 (Some 42) 0 = create rb_demo sd_demo 5 5 (Some 42) 17 \<and>
   (1::int) \<le> 5 \<and>
   (\<exists>m g'. create rb_demo sd_demo 5 5 (Some 42) 0 = Inr (m, g') \<and>
            create rb_demo sd_demo 5 5 (Some 42) 17 = Inr (m, g') \<and>
            (\<forall>c\<in>grid 5 5. \<forall>k\<in>wall_keys. \<exists>x. lookup_wall m c k = Inr x))"
proof -
  have h: "(1::int) \<le> 5" by simp
  from create_seed_deterministic[of rb_demo sd_demo 5 5 42 0 17] h show ?thesis
    by blast
qed

text \<open>
  C4, as the code has it. \<open>create\<close> checks no dimension. With a width or a height that
  is not positive the two loops of \<open>create\<close> add no cell, the generation loop finds no
  neighbour of \<open>(0, 0)\<close> in bounds, pops it and stops: the call returns a maze with the
  given dimensions and an empty dictionary, and raises nothing.
\<close>

theorem create_nonpositive_returns:
  assumes "w \<le> 0 \<or> h \<le> 0"
  shows "create rb sd w h seed g0 =
     Inr (\<lparr>width = w, height = h, cells = Map.empty\<rparr>,
          (case seed of Some sv \<Rightarrow> sd sv | None \<Rightarrow> g0))"
  using assms by (simp add: create_def walled_def generate_empty init_cells_empty)

theorem create_nonpositive_returns_witness:
  "((0::int) \<le> 0 \<or> (5::int) \<le> 0) \<and>
   create rb_demo sd_demo 0 5 None 7 = Inr (\<lparr>width = 0, height = 5, cells = Map.empty\<rparr>, 7)"
  using create_nonpositive_returns [of 0 5 rb_demo sd_demo None 7] by simp

text \<open>
  C4 as stated fails: \<open>create(0, 5)\<close> returns a maze, of width 0 and height 5,
  without cells.
\<close>

theorem create_zero_width_counterexample:
  "\<not> isl (create rb_demo sd_demo 0 5 None 7) \<and>
   width (fst (projr (create rb_demo sd_demo 0 5 None 7))) = 0 \<and>
   height (fst (projr (create rb_demo sd_demo 0 5 None 7))) = 5 \<and>
   dom (cells (fst (projr (create rb_demo sd_demo 0 5 None 7)))) = {}"
  by (simp add: create_def walled_def generate_def generate_loop.simps gen_step_def
      unvisited_neighbors_def cand_def init_cells_def py_range_def Let_def)

text \<open>
  C5, as the code has it. \<open>solve_bfs\<close> checks no bound. In a generated maze, a start
  outside the rectangle with a different goal raises the KeyError of the first wall lookup
  in \<open>neighbors_open\<close>; a start outside the rectangle that is also the goal is returned as
  the one-cell path; and with a start inside and a goal outside the search exhausts the
  maze and the call returns the one-cell sequence holding the goal, without an error.
\<close>

theorem solve_bfs_out_of_bounds:
  assumes "1 \<le> w" and "1 \<le> h"
  shows "\<exists>m g'. create rb sd w h seed g0 = Inr (m, g') \<and>
     (\<forall>start goal. start \<notin> grid w h \<and> goal \<noteq> start \<longrightarrow>
        solve_bfs m start (Some goal) = Some (Inl KeyError, m)) \<and>
     (\<forall>start. start \<notin> grid w h \<longrightarrow> solve_bfs m start (Some start) = Some (Inr [start], m)) \<and>
     (\<forall>start goal. start \<in> grid w h \<and> goal \<notin> grid w h \<longrightarrow>
        solve_bfs m start (Some goal) = Some (Inr [goal], m))"
proof -
  from create_tree_maze[OF assms(1,2), of rb sd seed g0] obtain m g' where
    m: "create rb sd w h seed g0 = Inr (m, g')" "width m = w" "height m = h" "tree_maze m"
    by blast
  from tree_maze_out_of_bounds[OF m(4)] m(2,3) solve_bfs_same[of m] m(1)
  show ?thesis by blast
qed

theorem solve_bfs_out_of_bounds_witness:
  "(1::int) \<le> 5 \<and> (1::int) \<le> 5 \<and>
   (\<exists>m g'. create rb_demo sd_demo 5 5 (Some 42) 0 = Inr (m, g') \<and>
      solve_bfs m (10, 10) (Some (4, 4)) = Some (Inl KeyError, m) \<and>
      solve_bfs m (10, 10) (Some (10, 10)) = Some (Inr [(10, 10)], m) \<and>
      solve_bfs m (0, 0) (Some (10, 10)) = Some (Inr [(10, 10)], m))"
proof -
  have h: "(1::int) \<le> 5" by simp
  have o: "((10, 10) :: cell) \<notin> grid 5 5" "((0, 0) :: cell) \<in> grid 5 5"
    "((4, 4) :: cell) \<noteq> (10, 10)"
    by (simp_all add: grid_def)
  from solve_bfs_out_of_bounds[OF h h, of rb_demo sd_demo "Some 42" 0] obtain m g' where
    m: "create rb_demo sd_demo 5 5 (Some 42) 0 = Inr (m, g')"
      "\<forall>start goal. start \<notin> grid 5 5 \<and> goal \<noteq> start \<longrightarrow>
        solve_bfs m start (Some goal) = Some (Inl KeyError, m)"
      "\<forall>start. start \<notin> grid 5 5 \<longrightarrow> solve_bfs m start (Some start) = Some (Inr [start], m)"
      "\<forall>start goal. start \<in> grid 5 5 \<and> goal \<notin> grid 5 5 \<longrightarrow>
        solve_bfs m start (Some goal) = Some (Inr [goal], m)"
    by blast
  from m(2) o have "solve_bfs m (10, 10) (Some (4, 4)) = Some (Inl KeyError, m)" by blast
  moreover from m(3) o have "solve_bfs m (10, 10) (Some (10, 10)) = Some (Inr [(10, 10)], m)"
    by blast
  moreover from m(4) o have "solve_bfs m (0, 0) (Some (10, 10)) = Some (Inr [(10, 10)], m)"
    by blast
  ultimately show ?thesis using m(1) h by blast
qed

text \<open>
  C5 as stated fails: on a 5 by 5 maze, solving from \<open>(0, 0)\<close> to the goal \<open>(10, 10)\<close>
  raises nothing and returns \<open>[(10, 10)]\<close>.
\<close>

theorem solve_bfs_goal_outside_counterexample:
  "\<not> isl (create rb_demo sd_demo 5 5 (Some 42) 0) \<and>
   solve_bfs (fst (projr (create rb_demo sd_demo 5 5 (Some 42) 0))) (0, 0) (Some (10, 10)) =
     Some (Inr [(10, 10)], fst (projr (create rb_demo sd_demo 5 5 (Some 42) 0)))"
proof -
  have h: "(1::int) \<le> 5" by simp
  from create_tree_maze[OF h h, of rb_demo sd_demo "Some 42" 0] obtain m g' where
    m: "create rb_demo sd_demo 5 5 (Some 42) 0 = Inr (m, g')" "width m = 5" "height m = 5"
      "tree_maze m"
    by blast
  have "((0, 0) :: cell) \<in> grid (width m) (height m)" "((10, 10) :: cell) \<notin> grid (width m) (height m)"
    by (simp_all add: m(2,3) grid_def)
  from tree_maze_out_of_bounds(2)[OF m(4) this]
  have "solve_bfs m (0, 0) (Some (10, 10)) = Some (Inr [(10, 10)], m)" .
  with m(1) show ?thesis by simp
qed

text \<open>
  C6. For every width and height of at least 1 the generation loop, run as \<open>create\<close>
  runs it, ends without an error, with an empty stack and every cell of the rectangle visited. The cells pushed
  (the start included) are the cells of the rectangle, each once, so there are \<open>w * h\<close>
  pushes; the cells popped are the same cells, each once.
\<close>

theorem generate_terminates_pushes:
  assumes "1 \<le> w" and "1 \<le> h"
  shows "\<exists>s. generate rb (walled w h) g = Inr s \<and>
     stack s = [] \<and> visited s = grid w h \<and>
     int (length (pushed (ops s))) = w * h \<and>
     distinct (pushed (ops s)) \<and> set (pushed (ops s)) = grid w h \<and>
     distinct (popped (ops s)) \<and> set (popped (ops s)) = grid w h"
proof -
  from generate_result[OF assms, of rb g] obtain s where
    s: "generate rb (walled w h) g = Inr s"
      "gen_inv s" "stack s = []" "visited s = grid w h"
    by blast
  from s(2) have o: "distinct (pushed (ops s))" "set (pushed (ops s)) = grid w h"
    "distinct (popped (ops s))" "set (popped (ops s)) = grid w h"
    unfolding gen_inv_def inv_ops_def s(3,4) by simp_all
  from o(1,2) have "length (pushed (ops s)) = card (grid w h)"
    by (metis distinct_card)
  then have "int (length (pushed (ops s))) = int (nat w * nat h)"
    by (simp add: card_grid)
  with assms have "int (length (pushed (ops s))) = w * h"
    by simp
  with s(1,3,4) o show ?thesis by blast
qed

theorem generate_terminates_pushes_witness:
  "(1::int) \<le> 2 \<and> (1::int) \<le> 2 \<and>
   (\<exists>s. generate rb_demo (walled 2 2) (0::nat) = Inr s \<and>
     stack s = [] \<and> visited s = grid 2 2 \<and>
     int (length (pushed (ops s))) = 2 * 2 \<and>
     distinct (pushed (ops s)) \<and> set (pushed (ops s)) = grid 2 2 \<and>
     distinct (popped (ops s)) \<and> set (popped (ops s)) = grid 2 2)"
proof -
  have h: "(1::int) \<le> 2" by simp
  from generate_terminates_pushes[OF h h, of rb_demo 0] h show ?thesis
    by blast
qed

text \<open>
  C7. In a generated maze, for in-bounds cells \<open>a\<close> and \<open>b\<close>, the reverse of the
  sequence returned by \<open>solve_bfs(a, b)\<close> is the sequence returned by \<open>solve_bfs(b, a)\<close>,
  and the two have the same length.
\<close>

theorem solve_bfs_reverse:
  assumes "1 \<le> w" and "1 \<le> h" and "a \<in> grid w h" and "b \<in> grid w h"
  shows "\<exists>m g'. create rb sd w h seed g0 = Inr (m, g') \<and>
     (\<exists>p q. solve_bfs m a (Some b) = Some (Inr p, m) \<and>
        solve_bfs m b (Some a) = Some (Inr q, m) \<and> rev p = q \<and> length p = length q)"
proof -
  from create_tree_maze[OF assms(1,2), of rb sd seed g0] obtain m g' where
    m: "create rb sd w h seed g0 = Inr (m, g')" "width m = w" "height m = h" "tree_maze m"
    by blast
  from assms(3,4) m(2,3) have G: "a \<in> grid (width m) (height m)" "b \<in> grid (width m) (height m)"
    by simp_all
  from tree_maze_solve[OF m(4) G] obtain p where
    p: "solve_bfs m a (Some b) = Some (Inr p, m)" "simple_path (open_step m) a b p"
    by blast
  from tree_maze_solve[OF m(4) G(2,1)] obtain q where
    q: "solve_bfs m b (Some a) = Some (Inr q, m)"
      "\<forall>q'. simple_path (open_step m) b a q' \<longrightarrow> q' = q"
    by blast
  from simple_path_rev[OF p(2)] tree_maze_sym[OF m(4)]
  have "simple_path (open_step m) b a (rev p)" by blast
  with q(2) have r: "rev p = q" by blast
  then have "length p = length q" by (metis length_rev)
  with m(1) p(1) q(1) r show ?thesis by blast
qed

theorem solve_bfs_reverse_witness:
  "(1::int) \<le> 2 \<and> (1::int) \<le> 2 \<and> (0, 0) \<in> grid 2 2 \<and> (1, 1) \<in> grid 2 2 \<and>
   (\<exists>m g'. create rb_demo sd_demo 2 2 None 0 = Inr (m, g') \<and>
     (\<exists>p q. solve_bfs m (0, 0) (Some (1, 1)) = Some (Inr p, m) \<and>
        solve_bfs m (1, 1) (Some (0, 0)) = Some (Inr q, m) \<and> rev p = q \<and> length p = length q))"
proof -
  have h: "(1::int) \<le> 2" by simp
  have a: "(0, 0) \<in> grid 2 2" and b: "(1, 1) \<in> grid 2 2"
    by (simp_all add: grid_def)
  from solve_bfs_reverse[OF h h a b, of rb_demo sd_demo None 0] h a b show ?thesis
    by blast
qed

text \<open>
  C8. Solving leaves the maze as it was: \<open>neighbors_open\<close> returns with \<open>self\<close>
  unchanged, for every maze and cell (also when it raises); whenever \<open>solve_bfs\<close>
  returns or raises, \<open>self\<close> is unchanged (width, height and every wall boolean); and on a
  maze in which every cell of the rectangle has its four walls, from a start in bounds,
  \<open>solve_bfs\<close> does return.
\<close>

theorem solving_leaves_maze:
  "snd (neighbors_open m c) = m \<and>
   (\<forall>r m'. solve_bfs m start goal_arg = Some (r, m') \<longrightarrow> m' = m) \<and>
   (well_formed m \<and> start \<in> grid (width m) (height m) \<longrightarrow>
      (\<exists>path. solve_bfs m start goal_arg = Some (Inr path, m)))"
proof (intro conjI allI impI)
  show "snd (neighbors_open m c) = m" by (rule neighbors_open_self)
next
  fix r m' assume "solve_bfs m start goal_arg = Some (r, m')"
  then show "m' = m" by (rule solve_bfs_self)
next
  assume "well_formed m \<and> start \<in> grid (width m) (height m)"
  then have "well_formed m" "start \<in> grid (width m) (height m)" by simp_all
  from solve_bfs_wf[OF this refl, of goal_arg]
  show "\<exists>path. solve_bfs m start goal_arg = Some (Inr path, m)" by blast
qed

theorem solving_leaves_maze_witness:
  "snd (neighbors_open (walled 2 1) (0, 0)) = walled 2 1 \<and>
   well_formed (walled 2 1) \<and> (0, 0) \<in> grid (width (walled 2 1)) (height (walled 2 1)) \<and>
   (\<exists>path. solve_bfs (walled 2 1) (0, 0) None = Some (Inr path, walled 2 1))"
proof -
  have a: "well_formed (walled 2 1)" by (rule well_formed_walled)
  have b: "(0, 0) \<in> grid (width (walled 2 1)) (height (walled 2 1))"
    by (simp add: walled_def grid_def)
  from solving_leaves_maze[of "walled 2 1" "(0, 0)" "(0, 0)" None] a b show ?thesis
    by blast
qed

text \<open>
  C9. In a generated maze, for in-bounds cells \<open>a\<close> and \<open>b\<close> one unit apart, the wall
  of \<open>a\<close> facing \<open>b\<close> and the wall of \<open>b\<close> facing \<open>a\<close> have the same boolean, so the step
  from \<open>a\<close> to \<open>b\<close> is open exactly when the step from \<open>b\<close> to \<open>a\<close> is: reading the
  walls of the queried cell alone, as \<open>neighbors_open\<close> does, gives a symmetric relation.
\<close>

theorem walls_symmetric:
  assumes "1 \<le> w" and "1 \<le> h"
  shows "\<exists>m g'. create rb sd w h seed g0 = Inr (m, g') \<and>
     (\<forall>a\<in>grid w h. \<forall>b\<in>grid w h. \<forall>d d'.
        facing a b = Some d \<and> facing b a = Some d' \<longrightarrow>
          (\<exists>x. lookup_wall m a d = Inr x \<and> lookup_wall m b d' = Inr x) \<and>
          (open_step m a b \<longleftrightarrow> open_step m b a))"
proof -
  from create_tree_maze[OF assms(1,2), of rb sd seed g0] obtain m g' where
    m: "create rb sd w h seed g0 = Inr (m, g')" "width m = w" "height m = h" "tree_maze m"
    by blast
  have "(\<exists>x. lookup_wall m a d = Inr x \<and> lookup_wall m b d' = Inr x) \<and>
          (open_step m a b \<longleftrightarrow> open_step m b a)"
    if aG: "a \<in> grid w h" and bG: "b \<in> grid w h"
      and f: "facing a b = Some d" "facing b a = Some d'" for a b d d'
  proof -
    from m(4) have dm: "dom (cells m) = grid w h"
      and keys: "\<And>c wl. cells m c = Some wl \<Longrightarrow> dom wl = wall_keys"
      unfolding tree_maze_def m(2,3) by blast+
    from dm aG bG obtain wa wb where w: "cells m a = Some wa" "cells m b = Some wb"
      by blast
    from keys[OF w(1)] facing_keys[OF f(1)] obtain x where x: "wa d = Some x" by blast
    from keys[OF w(2)] facing_keys[OF f(2)] obtain y where y: "wb d' = Some y" by blast
    from aG bG f w x m(2,3) have oa: "open_step m a b \<longleftrightarrow> \<not> x"
      by (simp add: open_step_def)
    from aG bG f w y m(2,3) have ob: "open_step m b a \<longleftrightarrow> \<not> y"
      by (simp add: open_step_def)
    from tree_maze_sym[OF m(4)] have s: "open_step m a b \<longleftrightarrow> open_step m b a" by blast
    with oa ob have "x = y" by simp
    with w x y s show ?thesis
      by (simp add: lookup_wall_def)
  qed
  with m(1) show ?thesis by blast
qed

theorem walls_symmetric_witness:
  "(1::int) \<le> 2 \<and> (1::int) \<le> 2 \<and>
   (\<exists>m g'. create rb_demo sd_demo 2 2 None 0 = Inr (m, g') \<and>
     (\<forall>a\<in>grid 2 2. \<forall>b\<in>grid 2 2. \<forall>d d'.
        facing a b = Some d \<and> facing b a = Some d' \<longrightarrow>
          (\<exists>x. lookup_wall m a d = Inr x \<and> lookup_wall m b d' = Inr x) \<and>
          (open_step m a b \<longleftrightarrow> open_step m b a)))"
proof -
  have h: "(1::int) \<le> 2" by simp
  from walls_symmetric[OF h h, of rb_demo sd_demo None 0] h show ?thesis
    by blast
qed




end
